theory Spec2Isabelle
  imports Main "HOL-Library.AList" "HOL-Library.Sublist"
begin

section \<open>Strings\<close>

text \<open>
  Identifiers are modelled as ASCII strings. \<open>toUpperCase\<close> maps the letters a..z to
  A..Z and leaves every other character alone; \<open>trim\<close> removes the ASCII white space
  (tab, line feed, vertical tab, form feed, carriage return, space) from both ends.
\<close>

definition toUpperChar :: "char \<Rightarrow> char" where
  "toUpperChar c =
     (case map_of (zip ''abcdefghijklmnopqrstuvwxyz'' ''ABCDEFGHIJKLMNOPQRSTUVWXYZ'') c of
        Some u \<Rightarrow> u
      | None \<Rightarrow> c)"

definition toUpperCase :: "string \<Rightarrow> string" where
  "toUpperCase s = map toUpperChar s"

definition isWhiteSpace :: "char \<Rightarrow> bool" where
  "isWhiteSpace c = (c \<in> set [CHR 0x09, CHR 0x0A, CHR 0x0B, CHR 0x0C, CHR 0x0D, CHR '' ''])"

definition trim :: "string \<Rightarrow> string" where
  "trim s = rev (dropWhile isWhiteSpace (rev (dropWhile isWhiteSpace s)))"

definition startsWith :: "string \<Rightarrow> string \<Rightarrow> bool" where
  "startsWith s p = prefix p s"

primrec str_includes :: "string \<Rightarrow> string \<Rightarrow> bool" where
  "str_includes [] p = (p = [])"
| "str_includes (c # cs) p = (prefix p (c # cs) \<or> str_includes cs p)"

definition digitChar :: "nat \<Rightarrow> char" where
  "digitChar n = ''0123456789'' ! n"

fun decimal :: "nat \<Rightarrow> string" where
  "decimal n = (if n < 10 then [digitChar n] else decimal (n div 10) @ [digitChar (n mod 10)])"

declare decimal.simps [simp del]

definition numberToString :: "int \<Rightarrow> string" where
  "numberToString i = (if i < 0 then CHR ''-'' # decimal (nat (- i)) else decimal (nat i))"

section \<open>Data model\<close>

text \<open>
  The record types \<open>Exam\<close>, \<open>ScheduledExam\<close>, \<open>ConflictMatrix\<close> and
  \<open>SchedulingState\<close> are imported by the source from a module that is not part of the
  two algorithm files; their fields are taken from the way the algorithm reads and writes
  them. A missing \<open>course\<close> or \<open>yearLevel\<close> is \<open>None\<close>; the year level is a number.
  Of the scheduling state only \<open>roomUsage\<close> and \<open>subjectScheduled\<close> are ever read or
  written, so only they are modelled.
\<close>

record exam =
  code :: string
  subjectId :: string
  title :: string
  course :: "string option"
  yearLevel :: "int option"
  instructor :: string
  dept :: string
  oe :: int
  lec :: int
  studentCount :: int
  isRegular :: bool
  lectureRoom :: string

record scheduled_exam =
  CODE :: string
  SUBJECT_ID :: string
  DESCRIPTIVE_TITLE :: string
  COURSE :: "string option"
  YEAR_LEVEL :: "int option"
  INSTRUCTOR :: string
  DEPT :: string
  OE :: int
  DAY :: string
  SLOT :: "string option"
  ROOM :: string
  UNITS :: int
  STUDENT_COUNT :: int
  PRIORITY :: nat
  IS_REGULAR :: bool
  LECTURE_ROOM :: string

type_synonym conflict_matrix = "string \<rightharpoonup> (string \<rightharpoonup> string set)"

type_synonym placement = "string \<times> string option"

record scheduling_state =
  roomUsage :: "string \<rightharpoonup> (string option \<rightharpoonup> string set)"
  subjectScheduled :: "string \<rightharpoonup> placement"

type_synonym scheduled_map = "(string \<times> scheduled_exam) list"

record time_block =
  block_day :: nat
  block_slot :: nat
  block_capacity :: nat

section \<open>Constants\<close>

definition TIME_SLOTS :: "string list" where
  "TIME_SLOTS = [''7:30-9:00'', ''9:00-10:30'', ''10:30-12:00'', ''12:00-1:30'',
                 ''1:30-3:00'', ''3:00-4:30'', ''4:30-6:00'', ''6:00-7:30'']"

definition GEN_ED_TIME_BLOCKS :: "(string \<times> time_block list) list" where
  "GEN_ED_TIME_BLOCKS =
    [(''ETHC'', [\<lparr>block_day = 0, block_slot = 0, block_capacity = 14\<rparr>]),
     (''ENGL'', [\<lparr>block_day = 0, block_slot = 2, block_capacity = 23\<rparr>,
                 \<lparr>block_day = 2, block_slot = 0, block_capacity = 34\<rparr>]),
     (''PHED'', [\<lparr>block_day = 0, block_slot = 3, block_capacity = 27\<rparr>,
                 \<lparr>block_day = 1, block_slot = 0, block_capacity = 46\<rparr>]),
     (''CFED'', [\<lparr>block_day = 0, block_slot = 4, block_capacity = 46\<rparr>,
                 \<lparr>block_day = 1, block_slot = 1, block_capacity = 36\<rparr>,
                 \<lparr>block_day = 1, block_slot = 2, block_capacity = 44\<rparr>]),
     (''CONW'', [\<lparr>block_day = 1, block_slot = 5, block_capacity = 33\<rparr>]),
     (''LANG'', [\<lparr>block_day = 2, block_slot = 3, block_capacity = 15\<rparr>]),
     (''LITR'', [\<lparr>block_day = 2, block_slot = 4, block_capacity = 9\<rparr>])]"

definition PRIORITY_GEN_ED :: nat where "PRIORITY_GEN_ED = 100000"
definition PRIORITY_MATH :: nat where "PRIORITY_MATH = 50000"
definition PRIORITY_ARCH :: nat where "PRIORITY_ARCH = 40000"
definition PRIORITY_MAJOR :: nat where "PRIORITY_MAJOR = 10000"

text \<open>
  \<open>TIME_SLOTS[slot]\<close> is \<open>undefined\<close> outside the table (\<open>None\<close>); string
  concatenation prints it as the text \<open>undefined\<close>.
\<close>

definition slotLabel :: "nat \<Rightarrow> string option" where
  "slotLabel slot = (if slot < length TIME_SLOTS then Some (TIME_SLOTS ! slot) else None)"

definition slotText :: "string option \<Rightarrow> string" where
  "slotText l = (case l of None \<Rightarrow> ''undefined'' | Some s \<Rightarrow> s)"

definition dayLabel :: "nat \<Rightarrow> string" where
  "dayLabel day = ''Day '' @ decimal (day + 1)"

section \<open>Subject classifier\<close>

definition getGenEdType :: "string \<Rightarrow> string option" where
  "getGenEdType sid =
     (if sid = [] then None
      else let upper = toUpperCase sid in
        if startsWith upper ''ETHC'' then Some ''ETHC''
        else if startsWith upper ''ENGL'' then Some ''ENGL''
        else if startsWith upper ''PHED'' then Some ''PHED''
        else if startsWith upper ''CFED'' then Some ''CFED''
        else if startsWith upper ''CONW'' then Some ''CONW''
        else if startsWith upper ''LANG'' \<or> startsWith upper ''JAPN''
                \<or> startsWith upper ''CHIN'' \<or> startsWith upper ''SPAN'' then Some ''LANG''
        else if startsWith upper ''LITR'' then Some ''LITR''
        else None)"

definition isGenEdSubject :: "string \<Rightarrow> bool" where
  "isGenEdSubject sid = (getGenEdType sid \<noteq> None)"

definition isMathSubject :: "exam \<Rightarrow> bool" where
  "isMathSubject e =
     (startsWith (toUpperCase (subjectId e)) ''MATH'' \<and> toUpperCase (dept e) = ''SACE'')"

definition isArchSubject :: "string \<Rightarrow> bool" where
  "isArchSubject sid = str_includes (toUpperCase sid) ''ARCH''"

definition calculatePriority :: "exam \<Rightarrow> nat" where
  "calculatePriority e =
     (if isGenEdSubject (subjectId e) then PRIORITY_GEN_ED
      else if isMathSubject e then PRIORITY_MATH
      else if isArchSubject (subjectId e) then PRIORITY_ARCH
      else PRIORITY_MAJOR)"

definition is6UnitSubject :: "exam \<Rightarrow> bool" where
  "is6UnitSubject e = (lec e = 6)"

section \<open>Buildings and rooms\<close>

definition isUpperAZ :: "char \<Rightarrow> bool" where
  "isUpperAZ c = (c \<in> set ''ABCDEFGHIJKLMNOPQRSTUVWXYZ'')"

text \<open>
  The regular expression \<open>/^([A-Z]+)-/\<close>: the leading run of capital letters, if it is
  not empty and a hyphen follows it; the empty string otherwise.
\<close>

definition getBuildingFromRoom :: "string \<Rightarrow> string" where
  "getBuildingFromRoom room =
     (let b = takeWhile isUpperAZ room in
      if b \<noteq> [] \<and> (case dropWhile isUpperAZ room of [] \<Rightarrow> False | c # _ \<Rightarrow> c = CHR ''-'')
      then b else [])"

definition getAvailableBuildings :: "string \<Rightarrow> string \<Rightarrow> string list" where
  "getAvailableBuildings dpt sid =
     (if isArchSubject sid then [''C'', ''K'']
      else let deptUpper = toUpperCase dpt in
        if str_includes deptUpper ''SECAP'' then [''A'', ''J'', ''B'']
        else if str_includes deptUpper ''SABH'' then [''A'']
        else if str_includes deptUpper ''SACE'' then [''N'', ''K'', ''C'']
        else if str_includes deptUpper ''SHAS'' then [''L'', ''M'', ''N'', ''K'', ''J'']
        else [''A'', ''N'', ''K'', ''L'', ''M'', ''J'', ''B'', ''C''])"

section \<open>Conflict detection\<close>

definition normSubject :: "exam \<Rightarrow> string" where
  "normSubject e = trim (toUpperCase (subjectId e))"

text \<open>
  The course-year key of a section, \<open>None\<close> when the guard
  \<open>!exam.course || !exam.yearLevel\<close> fires: the course is missing or empty, or the
  year level is missing or zero.
\<close>

definition courseYearKey :: "exam \<Rightarrow> string option" where
  "courseYearKey e =
     (case course e of
        None \<Rightarrow> None
      | Some c \<Rightarrow>
          (case yearLevel e of
             None \<Rightarrow> None
           | Some y \<Rightarrow>
               if c = [] \<or> y = 0 then None
               else Some (trim c @ ''-'' @ numberToString y)))"

text \<open>
  An insertion-ordered map from keys to lists, as the source's
  \<open>if (!groups[key]) groups[key] = []; groups[key].push(exam)\<close> builds it.
\<close>

fun pushGroup :: "string \<Rightarrow> exam \<Rightarrow> (string \<times> exam list) list \<Rightarrow> (string \<times> exam list) list" where
  "pushGroup k e [] = [(k, [e])]"
| "pushGroup k e ((k', g) # rest) =
     (if k' = k then (k', g @ [e]) # rest else (k', g) # pushGroup k e rest)"

text \<open>
  One step of such a grouping loop: the section is skipped when its key is \<open>None\<close>
  and pushed onto the list stored under its key otherwise.
\<close>

definition groupStep ::
  "(exam \<Rightarrow> string option) \<Rightarrow> exam \<Rightarrow> (string \<times> exam list) list \<Rightarrow> (string \<times> exam list) list" where
  "groupStep f = (\<lambda>e groups. case f e of None \<Rightarrow> groups | Some k \<Rightarrow> pushGroup k e groups)"

definition courseYearGroups :: "exam list \<Rightarrow> (string \<times> exam list) list" where
  "courseYearGroups exams = fold (groupStep courseYearKey) exams []"

text \<open>The inner loop over \<open>exam2\<close>: the subjects added to the set of \<open>exam1\<close>.\<close>

definition addConflicts :: "exam \<Rightarrow> exam list \<Rightarrow> string set \<Rightarrow> string set" where
  "addConflicts exam1 groupExams S =
     fold (\<lambda>exam2 acc.
             if code exam1 \<noteq> code exam2 \<and> normSubject exam1 \<noteq> normSubject exam2
             then insert (normSubject exam2) acc else acc)
       groupExams S"

text \<open>
  The body of the loop over \<open>exam1\<close>: the set \<open>matrix[courseYear][subj1]\<close> is
  created empty when absent and then receives the conflicts of \<open>exam1\<close>.
\<close>

definition rowStep :: "exam list \<Rightarrow> exam \<Rightarrow> (string \<rightharpoonup> string set) \<Rightarrow> (string \<rightharpoonup> string set)" where
  "rowStep groupExams = (\<lambda>exam1 r.
     r(normSubject exam1 \<mapsto>
         addConflicts exam1 groupExams
           (case r (normSubject exam1) of None \<Rightarrow> {} | Some S \<Rightarrow> S)))"

definition groupRow :: "exam list \<Rightarrow> (string \<rightharpoonup> string set) \<Rightarrow> (string \<rightharpoonup> string set)" where
  "groupRow groupExams row = fold (rowStep groupExams) groupExams row"

text \<open>
  The body of the loop over the course-year groups: the row \<open>matrix[courseYear]\<close> is
  created empty when absent and then filled from the group.
\<close>

definition matrixStep :: "string \<times> exam list \<Rightarrow> conflict_matrix \<Rightarrow> conflict_matrix" where
  "matrixStep = (\<lambda>(courseYear, groupExams) matrix.
     matrix(courseYear \<mapsto>
         groupRow groupExams
           (case matrix courseYear of None \<Rightarrow> Map.empty | Some row \<Rightarrow> row)))"

definition buildConflictMatrix :: "exam list \<Rightarrow> conflict_matrix" where
  "buildConflictMatrix exams = fold matrixStep (courseYearGroups exams) Map.empty"

text \<open>Whether \<open>B\<close> is a member of \<open>matrix[k][A]\<close>.\<close>

definition conflictEdge :: "conflict_matrix \<Rightarrow> string \<Rightarrow> string \<Rightarrow> string \<Rightarrow> bool" where
  "conflictEdge m k A B =
     (case m k of
        None \<Rightarrow> False
      | Some row \<Rightarrow> (case row A of None \<Rightarrow> False | Some S \<Rightarrow> B \<in> S))"

definition hasConflict ::
  "exam \<Rightarrow> nat \<Rightarrow> nat \<Rightarrow> scheduling_state \<Rightarrow> conflict_matrix \<Rightarrow> bool" where
  "hasConflict e day slot st m =
     (case courseYearKey e of
        None \<Rightarrow> False
      | Some courseYear \<Rightarrow>
          (case m courseYear of
             None \<Rightarrow> False
           | Some row \<Rightarrow>
               (case row (normSubject e) of
                  None \<Rightarrow> False
                | Some conflicts \<Rightarrow>
                    (\<exists>conflictSubj \<in> conflicts.
                       subjectScheduled st conflictSubj = Some (dayLabel day, slotLabel slot)))))"

section \<open>Room management\<close>

text \<open>The rooms recorded in \<open>roomUsage\<close> for a day label and a slot label.\<close>

definition occupiedAt :: "scheduling_state \<Rightarrow> string \<Rightarrow> string option \<Rightarrow> string set" where
  "occupiedAt st dayKey slotKey =
     (case roomUsage st dayKey of
        None \<Rightarrow> {}
      | Some dayUsage \<Rightarrow> (case dayUsage slotKey of None \<Rightarrow> {} | Some rs \<Rightarrow> rs))"

definition getAvailableRooms ::
  "exam \<Rightarrow> nat \<Rightarrow> nat \<Rightarrow> string list \<Rightarrow> scheduling_state \<Rightarrow> bool \<Rightarrow> string list" where
  "getAvailableRooms e day slot allRooms st requireConsecutive =
     (let allowedBuildings = getAvailableBuildings (dept e) (subjectId e);
          available = filter (\<lambda>room. getBuildingFromRoom room \<in> set allowedBuildings) allRooms;
          occupied = occupiedAt st (dayLabel day) (slotLabel slot) \<union>
            (if requireConsecutive \<and> slot < length TIME_SLOTS - 1
             then occupiedAt st (dayLabel day) (slotLabel (slot + 1)) else {})
      in filter (\<lambda>room. room \<notin> occupied) available)"

section \<open>Scheduling operations\<close>

text \<open>The \<open>ScheduledExam\<close> record that \<open>scheduleExam\<close> builds.\<close>

definition scheduledEntry :: "exam \<Rightarrow> string \<Rightarrow> string option \<Rightarrow> string \<Rightarrow> scheduled_exam" where
  "scheduledEntry e dayKey slotKey room =
     \<lparr>CODE = code e, SUBJECT_ID = subjectId e, DESCRIPTIVE_TITLE = title e,
      COURSE = course e, YEAR_LEVEL = yearLevel e, INSTRUCTOR = instructor e,
      DEPT = dept e, OE = oe e, DAY = dayKey, SLOT = slotKey, ROOM = room,
      UNITS = lec e, STUDENT_COUNT = studentCount e, PRIORITY = calculatePriority e,
      IS_REGULAR = isRegular e, LECTURE_ROOM = lectureRoom e\<rparr>"

text \<open>The key under which an entry is stored: \<open>exam.code + '-' + slotKey\<close>.\<close>

definition scheduledKey :: "string \<Rightarrow> string option \<Rightarrow> string" where
  "scheduledKey c slotKey = c @ ''-'' @ slotText slotKey"

text \<open>
  The output accumulator \<open>scheduled\<close> is a JavaScript \<open>Map\<close>: setting an existing
  key replaces the value in place, setting a new key appends it. \<open>AList.update\<close> does
  the same on an association list.
\<close>

definition scheduleExam ::
  "exam \<Rightarrow> nat \<Rightarrow> nat \<Rightarrow> string \<Rightarrow> scheduling_state \<Rightarrow> scheduled_map \<Rightarrow> bool
     \<Rightarrow> scheduling_state \<times> scheduled_map" where
  "scheduleExam e day slot room st scheduled isSecondSlotOf6Unit =
     (let dayKey = dayLabel day;
          slotKey = slotLabel slot;
          scheduledExam = scheduledEntry e dayKey slotKey room;
          dayUsage = (case roomUsage st dayKey of None \<Rightarrow> Map.empty | Some du \<Rightarrow> du);
          slotUsage = (case dayUsage slotKey of None \<Rightarrow> {} | Some rs \<Rightarrow> rs);
          usage = (roomUsage st)(dayKey \<mapsto> dayUsage(slotKey \<mapsto> insert room slotUsage));
          subjects = (if \<not> isSecondSlotOf6Unit
                      then (subjectScheduled st)(normSubject e \<mapsto> (dayKey, slotKey))
                      else subjectScheduled st)
      in (st\<lparr>roomUsage := usage, subjectScheduled := subjects\<rparr>,
          AList.update (scheduledKey (code e) slotKey) scheduledExam scheduled))"

text \<open>\<open>None\<close> is the result \<open>false\<close>, returned before anything is written.\<close>

definition schedule6UnitExam ::
  "exam \<Rightarrow> nat \<Rightarrow> nat \<Rightarrow> string \<Rightarrow> scheduling_state \<Rightarrow> scheduled_map
     \<Rightarrow> (scheduling_state \<times> scheduled_map) option" where
  "schedule6UnitExam e day slot room st scheduled =
     (if slot \<ge> length TIME_SLOTS - 1 then None
      else case scheduleExam e day slot room st scheduled False of
             (st1, scheduled1) \<Rightarrow> Some (scheduleExam e day (slot + 1) room st1 scheduled1 True))"

section \<open>Group scheduling\<close>

definition groupExamsBySubject :: "exam list \<Rightarrow> (string \<times> exam list) list" where
  "groupExamsBySubject exams = fold (groupStep (\<lambda>e. Some (normSubject e))) exams []"

text \<open>
  The commit loop of \<open>tryScheduleGroup\<close>, from index \<open>i\<close> on. The caller has checked
  that there are at least as many available rooms as sections, so \<open>availableRooms[i]\<close>
  is always inside the list.
\<close>

fun commitGroup ::
  "exam list \<Rightarrow> nat \<Rightarrow> nat \<Rightarrow> nat \<Rightarrow> string list \<Rightarrow> scheduling_state \<Rightarrow> scheduled_map
     \<Rightarrow> bool \<times> scheduling_state \<times> scheduled_map" where
  "commitGroup [] i day slot availableRooms st scheduled = (True, st, scheduled)"
| "commitGroup (e # rest) i day slot availableRooms st scheduled =
     (if is6UnitSubject e
      then (case schedule6UnitExam e day slot (availableRooms ! i) st scheduled of
              None \<Rightarrow> (False, st, scheduled)
            | Some (st1, scheduled1) \<Rightarrow>
                commitGroup rest (Suc i) day slot availableRooms st1 scheduled1)
      else (case scheduleExam e day slot (availableRooms ! i) st scheduled False of
              (st1, scheduled1) \<Rightarrow>
                commitGroup rest (Suc i) day slot availableRooms st1 scheduled1))"

fun tryScheduleGroup ::
  "exam list \<Rightarrow> nat \<Rightarrow> nat \<Rightarrow> string list \<Rightarrow> scheduling_state \<Rightarrow> conflict_matrix
     \<Rightarrow> scheduled_map \<Rightarrow> bool \<times> scheduling_state \<times> scheduled_map" where
  "tryScheduleGroup [] day slot allRooms st m scheduled = (True, st, scheduled)"
| "tryScheduleGroup (e0 # es) day slot allRooms st m scheduled =
     (let examGroup = e0 # es;
          has6Unit = list_ex is6UnitSubject examGroup
      in if list_ex (\<lambda>e. hasConflict e day slot st m) examGroup then (False, st, scheduled)
         else let availableRooms = getAvailableRooms e0 day slot allRooms st has6Unit
              in if length availableRooms < length examGroup then (False, st, scheduled)
                 else commitGroup examGroup 0 day slot availableRooms st scheduled)"

section \<open>Scanning the grid\<close>

text \<open>
  The nested loops \<open>for day < numDays && !placed\<close>, \<open>for slot < 8 && !placed\<close> visit
  the cells of the grid day by day, slot by slot, and stop at the first success.
\<close>

definition gridCells :: "nat \<Rightarrow> (nat \<times> nat) list" where
  "gridCells numDays = List.product [0..<numDays] [0..<length TIME_SLOTS]"

text \<open>
  A failed call of \<open>tryScheduleGroup\<close> hands its state on to the next cell: whatever
  it wrote before failing stays written.
\<close>

fun scanGrid ::
  "exam list \<Rightarrow> (nat \<times> nat) list \<Rightarrow> string list \<Rightarrow> conflict_matrix \<Rightarrow> scheduling_state
     \<Rightarrow> scheduled_map \<Rightarrow> bool \<times> scheduling_state \<times> scheduled_map" where
  "scanGrid g [] allRooms m st scheduled = (False, st, scheduled)"
| "scanGrid g ((day, slot) # cells) allRooms m st scheduled =
     (case tryScheduleGroup g day slot allRooms st m scheduled of
        (True, st1, scheduled1) \<Rightarrow> (True, st1, scheduled1)
      | (False, st1, scheduled1) \<Rightarrow> scanGrid g cells allRooms m st1 scheduled1)"

text \<open>The loop over the pinned blocks of a general-education type.\<close>

fun scanBlocks ::
  "exam list \<Rightarrow> time_block list \<Rightarrow> nat \<Rightarrow> string list \<Rightarrow> conflict_matrix
     \<Rightarrow> scheduling_state \<Rightarrow> scheduled_map \<Rightarrow> bool \<times> scheduling_state \<times> scheduled_map" where
  "scanBlocks g [] numDays allRooms m st scheduled = (False, st, scheduled)"
| "scanBlocks g (b # blocks) numDays allRooms m st scheduled =
     (if block_day b < numDays
      then (case tryScheduleGroup g (block_day b) (block_slot b) allRooms st m scheduled of
              (True, st1, scheduled1) \<Rightarrow> (True, st1, scheduled1)
            | (False, st1, scheduled1) \<Rightarrow> scanBlocks g blocks numDays allRooms m st1 scheduled1)
      else scanBlocks g blocks numDays allRooms m st scheduled)"

text \<open>
  What a phase carries from group to group: the count of scheduled sections, the list of
  failed sections, the ledger and the output accumulator.
\<close>

type_synonym phase_acc = "nat \<times> exam list \<times> scheduling_state \<times> scheduled_map"

definition record_outcome ::
  "exam list \<Rightarrow> nat \<Rightarrow> exam list \<Rightarrow> bool \<times> scheduling_state \<times> scheduled_map \<Rightarrow> phase_acc" where
  "record_outcome g cnt failed r =
     (case r of
        (True, st1, scheduled1) \<Rightarrow> (cnt + length g, failed, st1, scheduled1)
      | (False, st1, scheduled1) \<Rightarrow> (cnt, failed @ g, st1, scheduled1))"

text \<open>The body of a loop over subject groups that scans the whole grid.\<close>

definition gridStep ::
  "nat \<Rightarrow> string list \<Rightarrow> conflict_matrix \<Rightarrow> string \<times> exam list \<Rightarrow> phase_acc \<Rightarrow> phase_acc" where
  "gridStep numDays allRooms m = (\<lambda>(sid, g) (cnt, failed, st, scheduled).
     record_outcome g cnt failed (scanGrid g (gridCells numDays) allRooms m st scheduled))"

text \<open>The body of the loop over subject groups that tries the pinned blocks only.\<close>

definition blockStep ::
  "time_block list \<Rightarrow> nat \<Rightarrow> string list \<Rightarrow> conflict_matrix \<Rightarrow> string \<times> exam list
     \<Rightarrow> phase_acc \<Rightarrow> phase_acc" where
  "blockStep timeBlocks numDays allRooms m = (\<lambda>(sid, g) (cnt, failed, st, scheduled).
     record_outcome g cnt failed (scanBlocks g timeBlocks numDays allRooms m st scheduled))"

section \<open>The four phases\<close>

definition genEdStep ::
  "nat \<Rightarrow> string list \<Rightarrow> conflict_matrix \<Rightarrow> string \<times> exam list \<Rightarrow> phase_acc \<Rightarrow> phase_acc" where
  "genEdStep numDays allRooms m = (\<lambda>(genEdType, genEdExams) acc.
     let subjectGroups = groupExamsBySubject genEdExams;
         timeBlocks = (case map_of GEN_ED_TIME_BLOCKS genEdType of None \<Rightarrow> [] | Some bs \<Rightarrow> bs)
     in if timeBlocks = [] then fold (gridStep numDays allRooms m) subjectGroups acc
        else fold (blockStep timeBlocks numDays allRooms m) subjectGroups acc)"

definition scheduleGenEdTimeBlocks ::
  "exam list \<Rightarrow> string list \<Rightarrow> scheduling_state \<Rightarrow> conflict_matrix \<Rightarrow> scheduled_map \<Rightarrow> nat
     \<Rightarrow> phase_acc" where
  "scheduleGenEdTimeBlocks exams allRooms st m scheduled numDays =
     (let genEdsByType = fold (groupStep (\<lambda>e. getGenEdType (subjectId e))) exams []
      in fold (genEdStep numDays allRooms m) genEdsByType (0, [], st, scheduled))"

definition scheduleHighPriority ::
  "exam list \<Rightarrow> string list \<Rightarrow> scheduling_state \<Rightarrow> conflict_matrix \<Rightarrow> scheduled_map \<Rightarrow> nat
     \<Rightarrow> phase_acc" where
  "scheduleHighPriority exams allRooms st m scheduled numDays =
     (let mathExams = filter isMathSubject exams;
          archExams = filter (\<lambda>e. isArchSubject (subjectId e)) exams;
          mathGroups = groupExamsBySubject mathExams;
          afterMath = fold (gridStep numDays allRooms m) mathGroups (0, [], st, scheduled);
          archGroups = groupExamsBySubject archExams
      in fold (gridStep numDays allRooms m) archGroups afterMath)"

text \<open>
  The groups are sorted by size with \<open>Array.prototype.sort\<close>, which is stable;
  \<open>sort_key\<close> is the stable insertion sort.
\<close>

definition scheduleMajorSubjects ::
  "exam list \<Rightarrow> string list \<Rightarrow> scheduling_state \<Rightarrow> conflict_matrix \<Rightarrow> scheduled_map \<Rightarrow> nat
     \<Rightarrow> phase_acc" where
  "scheduleMajorSubjects exams allRooms st m scheduled numDays =
     (let subjectGroups = groupExamsBySubject exams;
          sortedGroups = sort_key (\<lambda>(sid, g). length g) subjectGroups
      in fold (gridStep numDays allRooms m) sortedGroups (0, [], st, scheduled))"

text \<open>Phase 4: the scan of the grid for a single section.\<close>

fun scanIndividual ::
  "exam \<Rightarrow> (nat \<times> nat) list \<Rightarrow> string list \<Rightarrow> conflict_matrix \<Rightarrow> scheduling_state
     \<Rightarrow> scheduled_map \<Rightarrow> bool \<times> scheduling_state \<times> scheduled_map" where
  "scanIndividual e [] allRooms m st scheduled = (False, st, scheduled)"
| "scanIndividual e ((day, slot) # cells) allRooms m st scheduled =
     (if hasConflict e day slot st m then scanIndividual e cells allRooms m st scheduled
      else case getAvailableRooms e day slot allRooms st (is6UnitSubject e) of
             [] \<Rightarrow> scanIndividual e cells allRooms m st scheduled
           | room # _ \<Rightarrow>
               if is6UnitSubject e
               then (case schedule6UnitExam e day slot room st scheduled of
                       None \<Rightarrow> scanIndividual e cells allRooms m st scheduled
                     | Some (st1, scheduled1) \<Rightarrow> (True, st1, scheduled1))
               else (case scheduleExam e day slot room st scheduled False of
                       (st1, scheduled1) \<Rightarrow> (True, st1, scheduled1)))"

definition individualStep ::
  "nat \<Rightarrow> string list \<Rightarrow> conflict_matrix \<Rightarrow> exam
     \<Rightarrow> nat \<times> scheduling_state \<times> scheduled_map \<Rightarrow> nat \<times> scheduling_state \<times> scheduled_map" where
  "individualStep numDays allRooms m = (\<lambda>e (cnt, st, scheduled).
     case scanIndividual e (gridCells numDays) allRooms m st scheduled of
       (True, st1, scheduled1) \<Rightarrow> (cnt + 1, st1, scheduled1)
     | (False, st1, scheduled1) \<Rightarrow> (cnt, st1, scheduled1))"

definition scheduleIndividually ::
  "exam list \<Rightarrow> string list \<Rightarrow> scheduling_state \<Rightarrow> conflict_matrix \<Rightarrow> scheduled_map \<Rightarrow> nat
     \<Rightarrow> nat \<times> scheduling_state \<times> scheduled_map" where
  "scheduleIndividually exams allRooms st m scheduled numDays =
     fold (individualStep numDays allRooms m) exams (0, st, scheduled)"

section \<open>The entry point\<close>

definition initialState :: scheduling_state where
  "initialState = \<lparr>roomUsage = Map.empty, subjectScheduled = Map.empty\<rparr>"

definition eligibleExams :: "exam list \<Rightarrow> exam list" where
  "eligibleExams exams = filter (\<lambda>e. toUpperCase (dept e) \<noteq> ''SAS'') exams"

text \<open>
  The run of the four phases: the final ledger and output accumulator, from which
  \<open>generateExamSchedule\<close> returns the values of the accumulator in insertion order.
\<close>

definition runPhases :: "exam list \<Rightarrow> string list \<Rightarrow> nat \<Rightarrow> nat \<times> scheduling_state \<times> scheduled_map" where
  "runPhases exams rooms numDays =
     (let eligible = eligibleExams exams;
          conflictMatrix = buildConflictMatrix eligible;
          genEds = filter (\<lambda>e. isGenEdSubject (subjectId e)) eligible;
          mathSubjects = filter isMathSubject eligible;
          archSubjects = filter (\<lambda>e. isArchSubject (subjectId e)) eligible;
          majorSubjects = filter (\<lambda>e. \<not> isGenEdSubject (subjectId e) \<and> \<not> isMathSubject e
                                        \<and> \<not> isArchSubject (subjectId e)) eligible
      in case scheduleGenEdTimeBlocks genEds rooms initialState conflictMatrix [] numDays of
           (count1, failed1, st1, scheduled1) \<Rightarrow>
         case scheduleHighPriority (mathSubjects @ archSubjects) rooms st1 conflictMatrix
                scheduled1 numDays of
           (count2, failed2, st2, scheduled2) \<Rightarrow>
         case scheduleMajorSubjects majorSubjects rooms st2 conflictMatrix scheduled2 numDays of
           (count3, failed3, st3, scheduled3) \<Rightarrow>
         case scheduleIndividually (failed1 @ failed2 @ failed3) rooms st3 conflictMatrix
                scheduled3 numDays of
           (count4, st4, scheduled4) \<Rightarrow> (count1 + count2 + count3 + count4, st4, scheduled4))"

definition generateExamSchedule :: "exam list \<Rightarrow> string list \<Rightarrow> nat \<Rightarrow> scheduled_exam list" where
  "generateExamSchedule exams rooms numDays =
     (case runPhases exams rooms numDays of (totalScheduled, st, scheduled) \<Rightarrow> map snd scheduled)"

section \<open>The two-phase variant of the algorithm\<close>

text \<open>
  The file \<open>exam-scheduler-algorithm.ts\<close> holds an earlier variant of the scheduler with
  two phases: subject groups first, split into batches when large, then the failed
  sections one by one. Its \<open>buildConflictMatrix\<close>, \<open>hasConflict\<close>,
  \<open>getBuildingFromRoom\<close> and \<open>groupExamsBySubject\<close> have the same text as above; the
  functions that differ carry the suffix \<open>_v4\<close> here.
\<close>

definition getAvailableBuildings_v4 :: "string \<Rightarrow> string \<Rightarrow> string list" where
  "getAvailableBuildings_v4 dpt sid =
     (if str_includes (toUpperCase sid) ''ARCH'' then [''C'', ''K'']
      else let deptUpper = toUpperCase dpt in
        if str_includes deptUpper ''SECAP'' \<or> str_includes deptUpper ''ACCT''
           \<or> str_includes deptUpper ''ECON'' \<or> str_includes deptUpper ''BSBA''
        then [''A'', ''J'', ''B'']
        else if str_includes deptUpper ''SABH'' \<or> str_includes deptUpper ''NURS''
           \<or> str_includes deptUpper ''SBH''
        then [''A'']
        else if str_includes deptUpper ''SACE'' \<or> str_includes deptUpper ''SCE''
           \<or> str_includes deptUpper ''CENG'' \<or> str_includes deptUpper ''ENG''
        then [''N'', ''K'', ''C'']
        else if str_includes deptUpper ''SHAS'' \<or> str_includes deptUpper ''HUMSS''
           \<or> str_includes deptUpper ''HUM''
        then [''L'', ''M'', ''N'', ''K'', ''J'']
        else [''A'', ''N'', ''K'', ''L'', ''M'', ''J'', ''B'', ''C''])"

definition getAvailableRooms_v4 ::
  "exam \<Rightarrow> nat \<Rightarrow> nat \<Rightarrow> string list \<Rightarrow> scheduling_state \<Rightarrow> string list" where
  "getAvailableRooms_v4 e day slot allRooms st =
     (let allowedBuildings = getAvailableBuildings_v4 (dept e) (subjectId e);
          available = filter (\<lambda>room. getBuildingFromRoom room \<in> set allowedBuildings) allRooms;
          occupied = occupiedAt st (dayLabel day) (slotLabel slot)
      in filter (\<lambda>room. room \<notin> occupied) available)"

definition scheduledEntry_v4 :: "exam \<Rightarrow> string \<Rightarrow> string option \<Rightarrow> string \<Rightarrow> scheduled_exam" where
  "scheduledEntry_v4 e dayKey slotKey room =
     \<lparr>CODE = code e, SUBJECT_ID = subjectId e, DESCRIPTIVE_TITLE = title e,
      COURSE = course e, YEAR_LEVEL = yearLevel e, INSTRUCTOR = instructor e,
      DEPT = dept e, OE = oe e, DAY = dayKey, SLOT = slotKey, ROOM = room,
      UNITS = lec e, STUDENT_COUNT = studentCount e, PRIORITY = 0,
      IS_REGULAR = isRegular e, LECTURE_ROOM = lectureRoom e\<rparr>"

definition scheduleExam_v4 ::
  "exam \<Rightarrow> nat \<Rightarrow> nat \<Rightarrow> string \<Rightarrow> scheduling_state \<Rightarrow> scheduled_map
     \<Rightarrow> scheduling_state \<times> scheduled_map" where
  "scheduleExam_v4 e day slot room st scheduled =
     (let dayKey = dayLabel day;
          slotKey = slotLabel slot;
          scheduledExam = scheduledEntry_v4 e dayKey slotKey room;
          dayUsage = (case roomUsage st dayKey of None \<Rightarrow> Map.empty | Some du \<Rightarrow> du);
          slotUsage = (case dayUsage slotKey of None \<Rightarrow> {} | Some rs \<Rightarrow> rs);
          usage = (roomUsage st)(dayKey \<mapsto> dayUsage(slotKey \<mapsto> insert room slotUsage));
          subjects = (subjectScheduled st)(normSubject e \<mapsto> (dayKey, slotKey))
      in (st\<lparr>roomUsage := usage, subjectScheduled := subjects\<rparr>,
          AList.update (scheduledKey (code e) slotKey) scheduledExam scheduled))"

text \<open>\<open>tryScheduleExam\<close>: the scan of the grid for one section.\<close>

fun scanExam_v4 ::
  "exam \<Rightarrow> (nat \<times> nat) list \<Rightarrow> string list \<Rightarrow> conflict_matrix \<Rightarrow> scheduling_state
     \<Rightarrow> scheduled_map \<Rightarrow> bool \<times> scheduling_state \<times> scheduled_map" where
  "scanExam_v4 e [] allRooms m st scheduled = (False, st, scheduled)"
| "scanExam_v4 e ((day, slot) # cells) allRooms m st scheduled =
     (if hasConflict e day slot st m then scanExam_v4 e cells allRooms m st scheduled
      else case getAvailableRooms_v4 e day slot allRooms st of
             [] \<Rightarrow> scanExam_v4 e cells allRooms m st scheduled
           | room # _ \<Rightarrow>
               (case scheduleExam_v4 e day slot room st scheduled of
                  (st1, scheduled1) \<Rightarrow> (True, st1, scheduled1)))"

definition tryScheduleExam_v4 ::
  "exam \<Rightarrow> string list \<Rightarrow> scheduling_state \<Rightarrow> conflict_matrix \<Rightarrow> scheduled_map \<Rightarrow> nat
     \<Rightarrow> bool \<times> scheduling_state \<times> scheduled_map" where
  "tryScheduleExam_v4 e allRooms st m scheduled numDays =
     scanExam_v4 e (gridCells numDays) allRooms m st scheduled"

text \<open>The commit loop of the variant's \<open>tryScheduleGroup\<close>, from index \<open>i\<close> on.\<close>

fun commitGroup_v4 ::
  "exam list \<Rightarrow> nat \<Rightarrow> nat \<Rightarrow> nat \<Rightarrow> string list \<Rightarrow> scheduling_state \<Rightarrow> scheduled_map
     \<Rightarrow> scheduling_state \<times> scheduled_map" where
  "commitGroup_v4 [] i day slot availableRooms st scheduled = (st, scheduled)"
| "commitGroup_v4 (e # rest) i day slot availableRooms st scheduled =
     (case scheduleExam_v4 e day slot (availableRooms ! i) st scheduled of
        (st1, scheduled1) \<Rightarrow> commitGroup_v4 rest (Suc i) day slot availableRooms st1 scheduled1)"

fun tryScheduleGroup_v4 ::
  "exam list \<Rightarrow> nat \<Rightarrow> nat \<Rightarrow> string list \<Rightarrow> scheduling_state \<Rightarrow> conflict_matrix
     \<Rightarrow> scheduled_map \<Rightarrow> bool \<times> scheduling_state \<times> scheduled_map" where
  "tryScheduleGroup_v4 [] day slot allRooms st m scheduled = (True, st, scheduled)"
| "tryScheduleGroup_v4 (e0 # es) day slot allRooms st m scheduled =
     (let examGroup = e0 # es
      in if list_ex (\<lambda>e. hasConflict e day slot st m) examGroup then (False, st, scheduled)
         else let availableRooms = getAvailableRooms_v4 e0 day slot allRooms st
              in if length availableRooms < length examGroup then (False, st, scheduled)
                 else case commitGroup_v4 examGroup 0 day slot availableRooms st scheduled of
                        (st1, scheduled1) \<Rightarrow> (True, st1, scheduled1))"

fun scanGrid_v4 ::
  "exam list \<Rightarrow> (nat \<times> nat) list \<Rightarrow> string list \<Rightarrow> conflict_matrix \<Rightarrow> scheduling_state
     \<Rightarrow> scheduled_map \<Rightarrow> bool \<times> scheduling_state \<times> scheduled_map" where
  "scanGrid_v4 g [] allRooms m st scheduled = (False, st, scheduled)"
| "scanGrid_v4 g ((day, slot) # cells) allRooms m st scheduled =
     (case tryScheduleGroup_v4 g day slot allRooms st m scheduled of
        (True, st1, scheduled1) \<Rightarrow> (True, st1, scheduled1)
      | (False, st1, scheduled1) \<Rightarrow> scanGrid_v4 g cells allRooms m st1 scheduled1)"

definition maxBatchSize :: nat where
  "maxBatchSize = 35"

text \<open>
  The batches \<open>examGroup.slice(i, min(i + 35, length))\<close> for \<open>i = 0, 35, 70, ...\<close>
  below the length of the group.
\<close>

definition batchesOf :: "exam list \<Rightarrow> exam list list" where
  "batchesOf g =
     map (\<lambda>j. take maxBatchSize (drop (maxBatchSize * j) g))
       [0..<(length g + maxBatchSize - 1) div maxBatchSize]"

text \<open>The body of the loop over the batches: the flag \<open>allScheduled\<close>, ledger and output.\<close>

definition batchStep_v4 ::
  "nat \<Rightarrow> string list \<Rightarrow> conflict_matrix \<Rightarrow> exam list
     \<Rightarrow> bool \<times> scheduling_state \<times> scheduled_map \<Rightarrow> bool \<times> scheduling_state \<times> scheduled_map" where
  "batchStep_v4 numDays allRooms m = (\<lambda>batch (allScheduled, st, scheduled).
     case scanGrid_v4 batch (gridCells numDays) allRooms m st scheduled of
       (True, st1, scheduled1) \<Rightarrow> (allScheduled, st1, scheduled1)
     | (False, st1, scheduled1) \<Rightarrow> (False, st1, scheduled1))"

definition tryScheduleGroupAnywhere_v4 ::
  "exam list \<Rightarrow> string list \<Rightarrow> scheduling_state \<Rightarrow> conflict_matrix \<Rightarrow> scheduled_map \<Rightarrow> nat
     \<Rightarrow> bool \<times> scheduling_state \<times> scheduled_map" where
  "tryScheduleGroupAnywhere_v4 g allRooms st m scheduled numDays =
     (if length g \<le> maxBatchSize then scanGrid_v4 g (gridCells numDays) allRooms m st scheduled
      else fold (batchStep_v4 numDays allRooms m) (batchesOf g) (True, st, scheduled))"

definition groupStep_v4 ::
  "nat \<Rightarrow> string list \<Rightarrow> conflict_matrix \<Rightarrow> string \<times> exam list \<Rightarrow> phase_acc \<Rightarrow> phase_acc" where
  "groupStep_v4 numDays allRooms m = (\<lambda>(sid, g) (cnt, failed, st, scheduled).
     record_outcome g cnt failed (tryScheduleGroupAnywhere_v4 g allRooms st m scheduled numDays))"

text \<open>
  The body of the second phase: the count of successes, the unscheduled sections, ledger
  and output.
\<close>

definition examStep_v4 ::
  "nat \<Rightarrow> string list \<Rightarrow> conflict_matrix \<Rightarrow> exam \<Rightarrow> phase_acc \<Rightarrow> phase_acc" where
  "examStep_v4 numDays allRooms m = (\<lambda>e (cnt, unscheduled, st, scheduled).
     case tryScheduleExam_v4 e allRooms st m scheduled numDays of
       (True, st1, scheduled1) \<Rightarrow> (cnt + 1, unscheduled, st1, scheduled1)
     | (False, st1, scheduled1) \<Rightarrow> (cnt, unscheduled @ [e], st1, scheduled1))"

definition runPhases_v4 :: "exam list \<Rightarrow> string list \<Rightarrow> nat \<Rightarrow> phase_acc" where
  "runPhases_v4 exams rooms numDays =
     (let eligible = eligibleExams exams;
          conflictMatrix = buildConflictMatrix eligible;
          subjectGroups = groupExamsBySubject eligible;
          sortedGroups = sort_key (\<lambda>(sid, g). length g) subjectGroups
      in case fold (groupStep_v4 numDays rooms conflictMatrix) sortedGroups
                (0, [], initialState, []) of
           (phase1Success, phase1Fail, st1, scheduled1) \<Rightarrow>
             fold (examStep_v4 numDays rooms conflictMatrix) phase1Fail
               (0, [], st1, scheduled1))"

definition generateExamSchedule_v4 :: "exam list \<Rightarrow> string list \<Rightarrow> nat \<Rightarrow> scheduled_exam list" where
  "generateExamSchedule_v4 exams rooms numDays =
     (case runPhases_v4 exams rooms numDays of
        (phase2Success, unscheduled, st, scheduled) \<Rightarrow> map snd scheduled)"

text \<open>Runs of the variant: sequences of calls of its \<open>scheduleExam\<close> for sections of \<open>E\<close>.\<close>

inductive reach_v4 ::
  "exam set \<Rightarrow> scheduling_state \<times> scheduled_map \<Rightarrow> scheduling_state \<times> scheduled_map \<Rightarrow> bool"
  for E :: "exam set" and c :: "scheduling_state \<times> scheduled_map"
where
  reach_v4_refl: "reach_v4 E c c"
| reach_v4_step:
    "reach_v4 E c (st, scheduled) \<Longrightarrow> e \<in> E \<Longrightarrow>
     reach_v4 E c (scheduleExam_v4 e day slot room st scheduled)"

definition entriesFrom_v4 :: "exam set \<Rightarrow> scheduled_map \<Rightarrow> bool" where
  "entriesFrom_v4 E scheduled =
     (\<forall>(k, s) \<in> set scheduled. \<exists>e \<in> E. s = scheduledEntry_v4 e (DAY s) (SLOT s) (ROOM s))"

definition accOK_v4 ::
  "exam set \<Rightarrow> scheduling_state \<times> scheduled_map \<Rightarrow> phase_acc \<Rightarrow> bool" where
  "accOK_v4 E c acc =
     (case acc of (cnt, failed, st, scheduled) \<Rightarrow>
        set failed \<subseteq> E \<and> reach_v4 E c (st, scheduled))"

section \<open>Runs of placements\<close>

text \<open>
  Every write to the ledger and to the output accumulator goes through \<open>scheduleExam\<close>.
  \<open>reach E rooms c c'\<close> says that \<open>c'\<close> comes from \<open>c\<close> by a sequence of such
  calls, each for a section of \<open>E\<close> and, when the room list has no repetition, each
  into a room of the list that the ledger shows free at the day and slot of the call.
\<close>

inductive reach ::
  "exam set \<Rightarrow> string list \<Rightarrow> scheduling_state \<times> scheduled_map
     \<Rightarrow> scheduling_state \<times> scheduled_map \<Rightarrow> bool"
  for E :: "exam set" and rooms :: "string list" and c :: "scheduling_state \<times> scheduled_map"
where
  reach_refl: "reach E rooms c c"
| reach_step:
    "reach E rooms c (st, scheduled) \<Longrightarrow> e \<in> E \<Longrightarrow>
     (distinct rooms \<longrightarrow>
        room \<in> set rooms \<and> room \<notin> occupiedAt st (dayLabel day) (slotLabel slot)) \<Longrightarrow>
     reach E rooms c (scheduleExam e day slot room st scheduled b)"

text \<open>The rooms of the list from index \<open>i\<close> on are free at the slot, and at the next slot if needed.\<close>

definition freeFrom :: "string list \<Rightarrow> nat \<Rightarrow> scheduling_state \<Rightarrow> nat \<Rightarrow> nat \<Rightarrow> bool \<Rightarrow> bool" where
  "freeFrom av i st day slot six =
     (\<forall>j. i \<le> j \<and> j < length av \<longrightarrow>
        av ! j \<notin> occupiedAt st (dayLabel day) (slotLabel slot) \<and>
        (six \<and> slot < 7 \<longrightarrow> av ! j \<notin> occupiedAt st (dayLabel day) (slotLabel (Suc slot))))"

text \<open>Every entry of the accumulator is stored under the key made of its code and slot.\<close>

definition keysOK :: "scheduled_map \<Rightarrow> bool" where
  "keysOK scheduled =
     (distinct (map fst scheduled) \<and>
      (\<forall>(k, s) \<in> set scheduled. k = scheduledKey (CODE s) (SLOT s)))"

text \<open>Every entry of the accumulator was built from a section of \<open>E\<close>.\<close>

definition entriesFrom :: "exam set \<Rightarrow> scheduled_map \<Rightarrow> bool" where
  "entriesFrom E scheduled =
     (\<forall>(k, s) \<in> set scheduled. \<exists>e \<in> E. s = scheduledEntry e (DAY s) (SLOT s) (ROOM s))"

text \<open>The day, slot and room of an entry.\<close>

definition bookingOf :: "scheduled_exam \<Rightarrow> string \<times> string option \<times> string" where
  "bookingOf s = (DAY s, SLOT s, ROOM s)"

text \<open>
  The ledger records the room of every entry at the entry's day and slot, and no two
  entries have the same day, slot and room.
\<close>

definition bookingsOK :: "scheduling_state \<times> scheduled_map \<Rightarrow> bool" where
  "bookingsOK c =
     (case c of (st, scheduled) \<Rightarrow>
        (\<forall>(k, s) \<in> set scheduled. ROOM s \<in> occupiedAt st (DAY s) (SLOT s)) \<and>
        distinct (map (\<lambda>(k, s). bookingOf s) scheduled))"

text \<open>
  What holds of the accumulator of a phase: the failed sections are sections of \<open>E\<close>,
  and the ledger and output were reached by a run from \<open>c\<close>.
\<close>

definition accOK ::
  "exam set \<Rightarrow> string list \<Rightarrow> scheduling_state \<times> scheduled_map \<Rightarrow> phase_acc \<Rightarrow> bool" where
  "accOK E rooms c acc =
     (case acc of (cnt, failed, st, scheduled) \<Rightarrow>
        set failed \<subseteq> E \<and> reach E rooms c (st, scheduled))"


section \<open>Runs of checked placements\<close>

text \<open>
  \<open>placements m c c'\<close> says that \<open>c'\<close> comes from \<open>c\<close> by a sequence of placements,
  each of one of two kinds: a section that is not double-unit is written by one call of
  \<open>scheduleExam\<close> for a first slot, a double-unit section by a successful call of
  \<open>schedule6UnitExam\<close>; and each is made at a day and slot for which \<open>hasConflict\<close> is
  false in the ledger as it is at that moment.
\<close>

inductive placements ::
  "conflict_matrix \<Rightarrow> scheduling_state \<times> scheduled_map
     \<Rightarrow> scheduling_state \<times> scheduled_map \<Rightarrow> bool"
  for m :: conflict_matrix and c :: "scheduling_state \<times> scheduled_map"
where
  placements_none: "placements m c c"
| placements_single:
    "placements m c (st, scheduled) \<Longrightarrow> \<not> is6UnitSubject e \<Longrightarrow>
     \<not> hasConflict e day slot st m \<Longrightarrow>
     placements m c (scheduleExam e day slot room st scheduled False)"
| placements_double:
    "placements m c (st, scheduled) \<Longrightarrow> is6UnitSubject e \<Longrightarrow>
     \<not> hasConflict e day slot st m \<Longrightarrow>
     schedule6UnitExam e day slot room st scheduled = Some c' \<Longrightarrow>
     placements m c c'"

text \<open>All sections of the group have the same normalized subject identifier.\<close>

definition uniformGroup :: "exam list \<Rightarrow> bool" where
  "uniformGroup g = (\<forall>e \<in> set g. \<forall>e' \<in> set g. normSubject e = normSubject e')"

text \<open>No subject is marked as a conflict of itself.\<close>

definition irreflexiveMatrix :: "conflict_matrix \<Rightarrow> bool" where
  "irreflexiveMatrix m = (\<forall>k A. \<not> conflictEdge m k A A)"

section \<open>Example inputs\<close>

text \<open>A section with the given code, subject, department and lecture units, in BSIT year 1.\<close>

definition mkExam :: "string \<Rightarrow> string \<Rightarrow> string \<Rightarrow> int \<Rightarrow> exam" where
  "mkExam c sid d l = \<lparr>code = c, subjectId = sid, title = ''Title'', course = Some ''BSIT'',
      yearLevel = Some 1, instructor = ''Instructor'', dept = d, oe = 0, lec = l,
      studentCount = 30, isRegular = True, lectureRoom = ''''\<rparr>"

text \<open>What an output entry says about the placement: code, day, slot and room.\<close>

definition placementOf :: "scheduled_exam \<Rightarrow> string \<times> string \<times> string option \<times> string" where
  "placementOf s = (CODE s, DAY s, SLOT s, ROOM s)"

definition exCS101 :: exam where
  "exCS101 = mkExam ''S1'' ''cs101 '' ''SACE'' 3"

definition exMATH201 :: exam where
  "exMATH201 = mkExam ''S2'' ''math201'' ''sace'' 6"

definition exNoCourse :: exam where
  "exNoCourse = (mkExam ''S3'' ''CS102'' ''SACE'' 3)\<lparr>course := None\<rparr>"

text \<open>Two sections of one subject, the second a double-unit section.\<close>

definition exLecture :: exam where
  "exLecture = mkExam ''S10'' ''IT201'' ''SACE'' 3"

definition exLab :: exam where
  "exLab = mkExam ''S11'' ''IT201'' ''SACE'' 6"

text \<open>Two subjects of one cohort, the first a double-unit section.\<close>

definition exDouble :: exam where
  "exDouble = mkExam ''S20'' ''IT301'' ''SACE'' 6"

definition exSingle :: exam where
  "exSingle = mkExam ''S21'' ''IT302'' ''SACE'' 3"

text \<open>Two sections of one subject, for a room list that names a room twice.\<close>

definition exSectionA :: exam where
  "exSectionA = mkExam ''S30'' ''IT401'' ''SACE'' 3"

definition exSectionB :: exam where
  "exSectionB = mkExam ''S31'' ''IT401'' ''SACE'' 3"



text \<open>A section of the excluded department, written in lower case.\<close>

definition exExcluded :: exam where
  "exExcluded = mkExam ''S50'' ''IT101'' ''sas'' 3"

text \<open>The subject, day and slot of an output entry.\<close>

definition subjectSlotOf :: "scheduled_exam \<Rightarrow> string \<times> string \<times> string option" where
  "subjectSlotOf s = (SUBJECT_ID s, DAY s, SLOT s)"

section \<open>Properties of the string helpers\<close>

lemma str_includes_iff: "str_includes s p \<longleftrightarrow> (\<exists>a b. s = a @ p @ b)"
proof (induction s)
  case Nil
  then show ?case by auto
next
  case (Cons c cs)
  show ?case
  proof
    assume "str_includes (c # cs) p"
    then consider "prefix p (c # cs)" | "str_includes cs p" by auto
    then show "\<exists>a b. c # cs = a @ p @ b"
    proof cases
      case 1
      then obtain b where "c # cs = p @ b" by (auto simp: prefix_def)
      then have "c # cs = [] @ p @ b" by simp
      then show ?thesis by blast
    next
      case 2
      then obtain a b where "cs = a @ p @ b" using Cons.IH by auto
      then have "c # cs = (c # a) @ p @ b" by simp
      then show ?thesis by blast
    qed
  next
    assume "\<exists>a b. c # cs = a @ p @ b"
    then obtain a b where ab: "c # cs = a @ p @ b" by auto
    show "str_includes (c # cs) p"
    proof (cases a)
      case Nil
      then have "prefix p (c # cs)" using ab by (simp add: prefix_def)
      then show ?thesis by simp
    next
      case (Cons x a')
      then have "cs = a' @ p @ b" using ab by simp
      then show ?thesis using Cons.IH by auto
    qed
  qed
qed

lemma startsWith_iff: "startsWith s p \<longleftrightarrow> (\<exists>r. s = p @ r)"
  by (auto simp: startsWith_def prefix_def)

section \<open>Properties of the conflict matrix\<close>

lemma map_of_pushGroup:
  "map_of (pushGroup k e gs) = (map_of gs)(k \<mapsto> (case map_of gs k of None \<Rightarrow> [] | Some g \<Rightarrow> g) @ [e])"
  by (induction k e gs rule: pushGroup.induct) (auto simp: fun_eq_iff)

lemma keys_pushGroup:
  "map fst (pushGroup k e gs) = (if k \<in> set (map fst gs) then map fst gs else map fst gs @ [k])"
  by (induction k e gs rule: pushGroup.induct) auto

lemma distinct_pushGroup:
  "distinct (map fst gs) \<Longrightarrow> distinct (map fst (pushGroup k e gs))"
  by (simp add: keys_pushGroup)

lemma distinct_fold_groupStep:
  "distinct (map fst gs) \<Longrightarrow> distinct (map fst (fold (groupStep f) xs gs))"
  by (induction xs arbitrary: gs) (auto simp: groupStep_def distinct_pushGroup split: option.splits)

lemma map_of_fold_groupStep:
  "map_of (fold (groupStep f) xs gs) k =
     (if filter (\<lambda>e. f e = Some k) xs = [] then map_of gs k
      else Some ((case map_of gs k of None \<Rightarrow> [] | Some g \<Rightarrow> g) @ filter (\<lambda>e. f e = Some k) xs))"
proof (induction xs arbitrary: gs)
  case Nil
  then show ?case by simp
next
  case (Cons x xs)
  have step: "map_of (groupStep f x gs) k =
      (if f x = Some k then Some ((case map_of gs k of None \<Rightarrow> [] | Some g \<Rightarrow> g) @ [x]) else map_of gs k)"
    by (auto simp: groupStep_def map_of_pushGroup split: option.splits)
  show ?case
    by (simp add: Cons.IH step)
qed

lemma addConflicts_eq:
  "addConflicts e1 g S =
     S \<union> {normSubject e2 | e2. e2 \<in> set g \<and> code e1 \<noteq> code e2 \<and> normSubject e1 \<noteq> normSubject e2}"
  unfolding addConflicts_def
  by (induction g arbitrary: S) auto

lemma rowFold_eq:
  "fold (rowStep g) xs r A =
     (if \<exists>e1 \<in> set xs. normSubject e1 = A
      then Some ((case r A of None \<Rightarrow> {} | Some S \<Rightarrow> S) \<union>
                 {normSubject e2 | e1 e2. e1 \<in> set xs \<and> normSubject e1 = A \<and> e2 \<in> set g
                     \<and> code e1 \<noteq> code e2 \<and> A \<noteq> normSubject e2})
      else r A)"
proof (induction xs arbitrary: r)
  case Nil
  then show ?case by simp
next
  case (Cons x xs)
  have step: "rowStep g x r A =
      (if normSubject x = A
       then Some ((case r A of None \<Rightarrow> {} | Some S \<Rightarrow> S) \<union>
              {normSubject e2 | e2. e2 \<in> set g \<and> code x \<noteq> code e2 \<and> A \<noteq> normSubject e2})
       else r A)"
    by (auto simp: rowStep_def addConflicts_eq)
  show ?case
    by (auto simp: Cons.IH step)
qed

lemma matrixFold_eq:
  "distinct (map fst gs) \<Longrightarrow>
   fold matrixStep gs m k =
   (case map_of gs k of None \<Rightarrow> m k
    | Some g \<Rightarrow> Some (groupRow g (case m k of None \<Rightarrow> Map.empty | Some row \<Rightarrow> row)))"
proof (induction gs arbitrary: m)
  case Nil
  then show ?case by simp
next
  case (Cons p gs)
  obtain k' g' where p: "p = (k', g')" by (cases p)
  from Cons.prems have d: "distinct (map fst gs)" and nk: "k' \<notin> fst ` set gs" by (auto simp: p)
  have none: "map_of gs k' = None" using nk by (simp add: map_of_eq_None_iff)
  have "fold matrixStep (p # gs) m k = fold matrixStep gs (matrixStep p m) k" by simp
  also have "\<dots> = (case map_of gs k of None \<Rightarrow> matrixStep p m k
    | Some g \<Rightarrow> Some (groupRow g (case matrixStep p m k of None \<Rightarrow> Map.empty | Some row \<Rightarrow> row)))"
    by (rule Cons.IH [OF d])
  also have "\<dots> = (case map_of (p # gs) k of None \<Rightarrow> m k
    | Some g \<Rightarrow> Some (groupRow g (case m k of None \<Rightarrow> Map.empty | Some row \<Rightarrow> row)))"
    using none by (cases "k = k'") (auto simp: p matrixStep_def split: option.splits)
  finally show ?case .
qed

lemma courseYearGroups_lookup:
  "map_of (courseYearGroups exams) k =
     (if filter (\<lambda>e. courseYearKey e = Some k) exams = [] then None
      else Some (filter (\<lambda>e. courseYearKey e = Some k) exams))"
  using map_of_fold_groupStep [of courseYearKey exams "[]" k]
  by (simp add: courseYearGroups_def)

lemma courseYearGroups_distinct: "distinct (map fst (courseYearGroups exams))"
  using distinct_fold_groupStep [of "[]" courseYearKey exams]
  by (simp add: courseYearGroups_def)

lemma buildConflictMatrix_lookup:
  "buildConflictMatrix exams k =
     (let g = filter (\<lambda>e. courseYearKey e = Some k) exams in
      if g = [] then None else Some (groupRow g Map.empty))"
  using matrixFold_eq [OF courseYearGroups_distinct, of exams Map.empty k]
  by (simp add: buildConflictMatrix_def courseYearGroups_lookup Let_def)

lemma conflictEdge_build:
  "conflictEdge (buildConflictMatrix exams) k A B \<longleftrightarrow>
     (\<exists>e1 \<in> set exams. \<exists>e2 \<in> set exams.
        courseYearKey e1 = Some k \<and> courseYearKey e2 = Some k \<and>
        normSubject e1 = A \<and> normSubject e2 = B \<and> code e1 \<noteq> code e2 \<and> A \<noteq> B)"
  unfolding conflictEdge_def buildConflictMatrix_lookup Let_def groupRow_def
  by (auto simp: rowFold_eq filter_empty_conv split: option.splits if_splits)

lemma buildConflictMatrix_skip:
  assumes "courseYearKey e = None"
  shows "buildConflictMatrix (xs @ e # ys) = buildConflictMatrix (xs @ ys)"
proof
  fix k
  show "buildConflictMatrix (xs @ e # ys) k = buildConflictMatrix (xs @ ys) k"
    using assms by (simp add: buildConflictMatrix_lookup)
qed

lemma conflictEdge_build_sym:
  assumes "conflictEdge (buildConflictMatrix exams) k A B"
  shows "conflictEdge (buildConflictMatrix exams) k B A"
proof -
  from assms obtain e1 e2 where e: "e1 \<in> set exams" "e2 \<in> set exams"
      "courseYearKey e1 = Some k" "courseYearKey e2 = Some k"
      "normSubject e1 = A" "normSubject e2 = B" "code e1 \<noteq> code e2" "A \<noteq> B"
    unfolding conflictEdge_build by auto
  have "\<exists>x \<in> set exams. \<exists>y \<in> set exams.
        courseYearKey x = Some k \<and> courseYearKey y = Some k \<and>
        normSubject x = B \<and> normSubject y = A \<and> code x \<noteq> code y \<and> B \<noteq> A"
    by (rule bexI [of _ e2], rule bexI [of _ e1]) (use e in auto)
  then show ?thesis unfolding conflictEdge_build .
qed

section \<open>Facts about the example inputs\<close>

lemma decimal_digit: "n < 10 \<Longrightarrow> decimal n = [digitChar n]"
  by (simp add: decimal.simps)

lemma key_mkExam: "courseYearKey (mkExam c sid d l) = Some ''BSIT-1''"
  by (simp add: courseYearKey_def mkExam_def trim_def isWhiteSpace_def numberToString_def
      decimal_digit digitChar_def)

lemma key_exCS101: "courseYearKey exCS101 = Some ''BSIT-1''"
  by (simp add: exCS101_def key_mkExam)

lemma key_exMATH201: "courseYearKey exMATH201 = Some ''BSIT-1''"
  by (simp add: exMATH201_def key_mkExam)

lemma norm_exCS101: "normSubject exCS101 = ''CS101''"
  by (simp add: normSubject_def exCS101_def mkExam_def trim_def isWhiteSpace_def
      toUpperCase_def toUpperChar_def)

lemma norm_exMATH201: "normSubject exMATH201 = ''MATH201''"
  by (simp add: normSubject_def exMATH201_def mkExam_def trim_def isWhiteSpace_def
      toUpperCase_def toUpperChar_def)

lemma code_exCS101_exMATH201: "code exCS101 \<noteq> code exMATH201"
  by (simp add: exCS101_def exMATH201_def mkExam_def)

section \<open>The conflict matrix is symmetric\<close>

text \<open>
  Claim C6. In the matrix built by \<open>buildConflictMatrix\<close>, \<open>B\<close> is in
  \<open>matrix[k][A]\<close> if and only if \<open>A\<close> is in \<open>matrix[k][B]\<close>, and the edge exists
  exactly when two sections of the input with course-year key \<open>k\<close> have different
  section codes and the different normalized subject identifiers \<open>A\<close> and \<open>B\<close>.
  Both source files define \<open>buildConflictMatrix\<close> with the same text.
\<close>

theorem conflict_matrix_symmetric:
  "(conflictEdge (buildConflictMatrix exams) k A B \<longleftrightarrow> conflictEdge (buildConflictMatrix exams) k B A)
   \<and> (conflictEdge (buildConflictMatrix exams) k A B \<longleftrightarrow>
        (\<exists>e1 \<in> set exams. \<exists>e2 \<in> set exams.
           courseYearKey e1 = Some k \<and> courseYearKey e2 = Some k \<and>
           normSubject e1 = A \<and> normSubject e2 = B \<and> code e1 \<noteq> code e2 \<and> A \<noteq> B))"
proof
  show "conflictEdge (buildConflictMatrix exams) k A B \<longleftrightarrow> conflictEdge (buildConflictMatrix exams) k B A"
    using conflictEdge_build_sym [of exams k A B] conflictEdge_build_sym [of exams k B A] by (rule iffI)
  show "conflictEdge (buildConflictMatrix exams) k A B \<longleftrightarrow>
        (\<exists>e1 \<in> set exams. \<exists>e2 \<in> set exams.
           courseYearKey e1 = Some k \<and> courseYearKey e2 = Some k \<and>
           normSubject e1 = A \<and> normSubject e2 = B \<and> code e1 \<noteq> code e2 \<and> A \<noteq> B)"
    by (rule conflictEdge_build)
qed

theorem conflict_matrix_symmetric_witness:
  "conflictEdge (buildConflictMatrix [exCS101, exMATH201]) ''BSIT-1'' ''CS101'' ''MATH201''
   \<and> conflictEdge (buildConflictMatrix [exCS101, exMATH201]) ''BSIT-1'' ''MATH201'' ''CS101''"
proof -
  have "\<exists>e1 \<in> set [exCS101, exMATH201]. \<exists>e2 \<in> set [exCS101, exMATH201].
           courseYearKey e1 = Some ''BSIT-1'' \<and> courseYearKey e2 = Some ''BSIT-1'' \<and>
           normSubject e1 = ''CS101'' \<and> normSubject e2 = ''MATH201'' \<and> code e1 \<noteq> code e2
           \<and> ''CS101'' \<noteq> ''MATH201''"
    using key_exCS101 key_exMATH201 norm_exCS101 norm_exMATH201 code_exCS101_exMATH201 by simp
  then have ab: "conflictEdge (buildConflictMatrix [exCS101, exMATH201]) ''BSIT-1'' ''CS101'' ''MATH201''"
    by (rule iffD2 [OF conjunct2 [OF conflict_matrix_symmetric]])
  then have "conflictEdge (buildConflictMatrix [exCS101, exMATH201]) ''BSIT-1'' ''MATH201'' ''CS101''"
    by (rule iffD1 [OF conjunct1 [OF conflict_matrix_symmetric]])
  with ab show ?thesis by (rule conjI)
qed

section \<open>Priority tiers\<close>

text \<open>
  Claim C7. \<open>calculatePriority\<close> checks the tiers in the order general education, then
  mathematics (the upper-cased subject identifier starts with MATH and the upper-cased
  department is SACE), then architecture (the upper-cased subject identifier contains
  ARCH anywhere), then major; the weights are 100000, 50000, 40000 and 10000, strictly
  descending in that order.
\<close>

theorem calculatePriority_tiers:
  "calculatePriority e =
     (if isGenEdSubject (subjectId e) then 100000
      else if (\<exists>r. toUpperCase (subjectId e) = ''MATH'' @ r) \<and> toUpperCase (dept e) = ''SACE''
        then 50000
      else if (\<exists>a b. toUpperCase (subjectId e) = a @ ''ARCH'' @ b) then 40000
      else 10000)
   \<and> PRIORITY_GEN_ED = 100000 \<and> PRIORITY_MATH = 50000 \<and> PRIORITY_ARCH = 40000
   \<and> PRIORITY_MAJOR = 10000
   \<and> PRIORITY_GEN_ED > PRIORITY_MATH \<and> PRIORITY_MATH > PRIORITY_ARCH
   \<and> PRIORITY_ARCH > PRIORITY_MAJOR"
proof -
  have math: "isMathSubject e \<longleftrightarrow>
      (\<exists>r. toUpperCase (subjectId e) = ''MATH'' @ r) \<and> toUpperCase (dept e) = ''SACE''"
    by (simp only: isMathSubject_def startsWith_iff)
  have arch: "isArchSubject (subjectId e) \<longleftrightarrow> (\<exists>a b. toUpperCase (subjectId e) = a @ ''ARCH'' @ b)"
    by (simp only: isArchSubject_def str_includes_iff)
  have "calculatePriority e =
     (if isGenEdSubject (subjectId e) then 100000
      else if isMathSubject e then 50000
      else if isArchSubject (subjectId e) then 40000
      else 10000)"
    by (simp add: calculatePriority_def PRIORITY_GEN_ED_def PRIORITY_MATH_def PRIORITY_ARCH_def
        PRIORITY_MAJOR_def)
  then have "calculatePriority e =
     (if isGenEdSubject (subjectId e) then 100000
      else if (\<exists>r. toUpperCase (subjectId e) = ''MATH'' @ r) \<and> toUpperCase (dept e) = ''SACE''
        then 50000
      else if (\<exists>a b. toUpperCase (subjectId e) = a @ ''ARCH'' @ b) then 40000
      else 10000)"
    by (simp only: math arch)
  then show ?thesis
    by (simp add: PRIORITY_GEN_ED_def PRIORITY_MATH_def PRIORITY_ARCH_def PRIORITY_MAJOR_def)
qed

theorem calculatePriority_tiers_witness:
  "calculatePriority exMATH201 = 50000
   \<and> calculatePriority (mkExam ''S4'' ''ETHC101'' ''SACE'' 3) = 100000
   \<and> calculatePriority (mkExam ''S5'' ''RESEARCH1'' ''SHAS'' 3) = 40000
   \<and> calculatePriority exCS101 = 10000"
proof -
  have up1: "toUpperCase ''math201'' = ''MATH201''" "toUpperCase ''sace'' = ''SACE''"
    "toUpperCase ''ETHC101'' = ''ETHC101''" "toUpperCase ''RESEARCH1'' = ''RESEARCH1''"
    "toUpperCase ''cs101 '' = ''CS101 ''" "toUpperCase ''SHAS'' = ''SHAS''"
    "toUpperCase ''SACE'' = ''SACE''"
    by (simp_all add: toUpperCase_def toUpperChar_def)
  have g: "\<not> isGenEdSubject ''math201''" "isGenEdSubject ''ETHC101''"
    "\<not> isGenEdSubject ''RESEARCH1''" "\<not> isGenEdSubject ''cs101 ''"
    by (simp_all add: isGenEdSubject_def getGenEdType_def up1 startsWith_def)
  have arch: "\<exists>a b. ''RESEARCH1'' = a @ ''ARCH'' @ b"
  proof -
    have "''RESEARCH1'' = ''RESE'' @ ''ARCH'' @ ''1''" by simp
    then show ?thesis by blast
  qed
  have noarch: "\<not> (\<exists>a b. ''CS101 '' = a @ ''ARCH'' @ b)"
    unfolding str_includes_iff [symmetric] by simp
  have 1: "calculatePriority exMATH201 = 50000"
    using conjunct1 [OF calculatePriority_tiers [of exMATH201]]
    by (simp add: exMATH201_def mkExam_def up1 g)
  have 2: "calculatePriority (mkExam ''S4'' ''ETHC101'' ''SACE'' 3) = 100000"
    using conjunct1 [OF calculatePriority_tiers [of "mkExam ''S4'' ''ETHC101'' ''SACE'' 3"]]
    by (simp add: mkExam_def g)
  have 3: "calculatePriority (mkExam ''S5'' ''RESEARCH1'' ''SHAS'' 3) = 40000"
    using conjunct1 [OF calculatePriority_tiers [of "mkExam ''S5'' ''RESEARCH1'' ''SHAS'' 3"]] arch
    by (simp add: mkExam_def g up1)
  have 4: "calculatePriority exCS101 = 10000"
    using conjunct1 [OF calculatePriority_tiers [of exCS101]] noarch
    by (simp add: exCS101_def mkExam_def g up1)
  from 1 2 3 4 show ?thesis by simp
qed

section \<open>Sections without a course or year level\<close>

text \<open>
  Claim C8. A section whose course or year level is missing (absent, or the empty string or
  zero, which the guard treats alike) is excluded from conflict computation: the
  conflict matrix is the same with and without it, so it contributes no edges, and
  \<open>hasConflict\<close> returns false for it at every day and slot, whatever the ledger and
  the matrix are.
\<close>

theorem missing_cohort_excluded:
  assumes "course e = None \<or> course e = Some [] \<or> yearLevel e = None \<or> yearLevel e = Some 0"
  shows "buildConflictMatrix (xs @ e # ys) = buildConflictMatrix (xs @ ys)
         \<and> \<not> hasConflict e day slot st m"
proof -
  from assms have k: "courseYearKey e = None"
    by (auto simp: courseYearKey_def split: option.splits)
  have "\<not> hasConflict e day slot st m"
    by (simp add: hasConflict_def k)
  with buildConflictMatrix_skip [OF k] show ?thesis by simp
qed

theorem missing_cohort_excluded_witness:
  "buildConflictMatrix ([exCS101] @ exNoCourse # [exMATH201]) = buildConflictMatrix ([exCS101] @ [exMATH201])
   \<and> \<not> hasConflict exNoCourse 0 0
         \<lparr>roomUsage = Map.empty, subjectScheduled = [''CS101'' \<mapsto> (''Day 1'', Some ''7:30-9:00'')]\<rparr>
         (buildConflictMatrix [exCS101, exNoCourse, exMATH201])"
proof -
  have "course exNoCourse = None \<or> course exNoCourse = Some [] \<or> yearLevel exNoCourse = None
        \<or> yearLevel exNoCourse = Some 0"
    by (simp add: exNoCourse_def)
  then show ?thesis by (rule missing_cohort_excluded)
qed

section \<open>Effects of scheduleExam\<close>

lemma occupiedAt_scheduleExam:
  "occupiedAt (fst (scheduleExam e day slot room st sch b)) dk sk =
     (if dk = dayLabel day \<and> sk = slotLabel slot then insert room (occupiedAt st dk sk)
      else occupiedAt st dk sk)"
  by (auto simp: scheduleExam_def occupiedAt_def Let_def split: option.splits)

lemma subjectScheduled_scheduleExam:
  "subjectScheduled (fst (scheduleExam e day slot room st sch b)) =
     (if b then subjectScheduled st
      else (subjectScheduled st)(normSubject e \<mapsto> (dayLabel day, slotLabel slot)))"
  by (simp add: scheduleExam_def Let_def)

lemma snd_scheduleExam:
  "snd (scheduleExam e day slot room st sch b) =
     AList.update (scheduledKey (code e) (slotLabel slot))
       (scheduledEntry e (dayLabel day) (slotLabel slot) room) sch"
  by (simp add: scheduleExam_def Let_def)

lemma scheduledEntry_sel [simp]:
  "CODE (scheduledEntry e dk sk room) = code e"
  "DAY (scheduledEntry e dk sk room) = dk"
  "SLOT (scheduledEntry e dk sk room) = sk"
  "ROOM (scheduledEntry e dk sk room) = room"
  "DEPT (scheduledEntry e dk sk room) = dept e"
  "UNITS (scheduledEntry e dk sk room) = lec e"
  "SUBJECT_ID (scheduledEntry e dk sk room) = subjectId e"
  "COURSE (scheduledEntry e dk sk room) = course e"
  "YEAR_LEVEL (scheduledEntry e dk sk room) = yearLevel e"
  by (simp_all add: scheduledEntry_def)

lemma scheduledEntry_again:
  "scheduledEntry e (DAY (scheduledEntry e dk sk room)) (SLOT (scheduledEntry e dk sk room))
     (ROOM (scheduledEntry e dk sk room)) = scheduledEntry e dk sk room"
  by simp

section \<open>Slot labels\<close>

lemma length_TIME_SLOTS [simp]: "length TIME_SLOTS = 8"
  by (simp add: TIME_SLOTS_def)

lemma distinct_TIME_SLOTS: "distinct TIME_SLOTS"
  by (simp add: TIME_SLOTS_def)

lemma slotLabel_inj: "i < 8 \<Longrightarrow> slotLabel i = slotLabel j \<Longrightarrow> i = j"
  using distinct_TIME_SLOTS
  by (auto simp: slotLabel_def nth_eq_iff_index_eq split: if_splits)

lemma slotLabel_Suc_neq: "slot < 7 \<Longrightarrow> slotLabel (Suc slot) \<noteq> slotLabel slot"
  using slotLabel_inj [of slot "Suc slot"] by auto

section \<open>The association list of entries\<close>

lemma set_update_subset: "set (AList.update k v al) \<subseteq> insert (k, v) (set al)"
  by (induction al) auto

lemma distinct_map_update:
  "distinct (map f al) \<Longrightarrow> f (k, v) \<notin> f ` set al \<Longrightarrow> distinct (map f (AList.update k v al))"
proof (induction al)
  case Nil
  then show ?case by simp
next
  case (Cons p al)
  have sub: "set (AList.update k v al) \<subseteq> insert (k, v) (set al)" by (rule set_update_subset)
  show ?case
  proof (cases "fst p = k")
    case True
    then show ?thesis using Cons.prems by auto
  next
    case False
    have "f p \<notin> f ` set (AList.update k v al)"
    proof
      assume "f p \<in> f ` set (AList.update k v al)"
      then obtain q where q: "q \<in> set (AList.update k v al)" "f p = f q" by auto
      with sub have "q = (k, v) \<or> q \<in> set al" by auto
      then show False using q Cons.prems by auto
    qed
    then show ?thesis using False Cons by auto
  qed
qed

section \<open>Available rooms\<close>

lemma getAvailableRooms_subset: "set (getAvailableRooms e day slot allRooms st six) \<subseteq> set allRooms"
  by (auto simp: getAvailableRooms_def Let_def)

lemma getAvailableRooms_distinct:
  "distinct allRooms \<Longrightarrow> distinct (getAvailableRooms e day slot allRooms st six)"
  by (simp add: getAvailableRooms_def Let_def)

lemma getAvailableRooms_free:
  "room \<in> set (getAvailableRooms e day slot allRooms st six) \<Longrightarrow>
   room \<notin> occupiedAt st (dayLabel day) (slotLabel slot)"
  by (auto simp: getAvailableRooms_def Let_def)

lemma getAvailableRooms_free_next:
  "room \<in> set (getAvailableRooms e day slot allRooms st True) \<Longrightarrow> slot < 7 \<Longrightarrow>
   room \<notin> occupiedAt st (dayLabel day) (slotLabel (Suc slot))"
  by (auto simp: getAvailableRooms_def Let_def)

section \<open>Runs\<close>

lemma reach_trans:
  "reach E rooms c1 c2 \<Longrightarrow> reach E rooms c0 c1 \<Longrightarrow> reach E rooms c0 c2"
proof (induction rule: reach.induct)
  case reach_refl
  then show ?case .
next
  case (reach_step st scheduled e room day slot b)
  then show ?case by (auto intro: reach.reach_step)
qed

lemma reach_scheduleExam:
  assumes "reach E rooms c (st, sch)" "e \<in> E"
    "distinct rooms \<longrightarrow> room \<in> set rooms \<and> room \<notin> occupiedAt st (dayLabel day) (slotLabel slot)"
    "scheduleExam e day slot room st sch b = (st', sch')"
  shows "reach E rooms c (st', sch')"
  using reach_step [OF assms(1,2,3), of b] assms(4) by simp

lemma reach_schedule6UnitExam:
  assumes r: "reach E rooms c (st, sch)" and e: "e \<in> E"
    and f1: "distinct rooms \<longrightarrow> room \<in> set rooms \<and> room \<notin> occupiedAt st (dayLabel day) (slotLabel slot)"
    and f2: "distinct rooms \<longrightarrow> room \<notin> occupiedAt st (dayLabel day) (slotLabel (Suc slot))"
    and s: "schedule6UnitExam e day slot room st sch = Some (st', sch')"
  shows "reach E rooms c (st', sch')"
proof -
  from s have lt: "slot < 7"
    by (auto simp: schedule6UnitExam_def split: if_splits)
  obtain st1 sch1 where 1: "scheduleExam e day slot room st sch False = (st1, sch1)"
    by (cases "scheduleExam e day slot room st sch False")
  with s lt have 2: "scheduleExam e day (Suc slot) room st1 sch1 True = (st', sch')"
    by (auto simp: schedule6UnitExam_def split: if_splits)
  have r1: "reach E rooms c (st1, sch1)"
    by (rule reach_scheduleExam [OF r e f1 1])
  have st1: "st1 = fst (scheduleExam e day slot room st sch False)" using 1 by simp
  have "occupiedAt st1 (dayLabel day) (slotLabel (Suc slot)) = occupiedAt st (dayLabel day) (slotLabel (Suc slot))"
    unfolding st1 occupiedAt_scheduleExam using slotLabel_Suc_neq [OF lt] by simp
  with f1 f2 have "distinct rooms \<longrightarrow> room \<in> set rooms \<and> room \<notin> occupiedAt st1 (dayLabel day) (slotLabel (Suc slot))"
    by simp
  from reach_scheduleExam [OF r1 e this 2] show ?thesis .
qed

lemma freeFrom_scheduleExam:
  assumes "freeFrom av i st day slot six" "distinct av" "i < length av"
    "slot' = slot \<or> slot' = Suc slot"
  shows "freeFrom av (Suc i) (fst (scheduleExam e day slot' (av ! i) st sch b)) day slot six"
  using assms
  by (auto simp: freeFrom_def occupiedAt_scheduleExam nth_eq_iff_index_eq)

lemma commitGroup_reach:
  assumes "set g \<subseteq> E" "i + length g \<le> length av"
    "distinct rooms \<longrightarrow> distinct av \<and> set av \<subseteq> set rooms \<and> freeFrom av i st day slot six"
    "list_ex is6UnitSubject g \<longrightarrow> six"
    "reach E rooms c (st, sch)"
    "commitGroup g i day slot av st sch = (ok, st', sch')"
  shows "reach E rooms c (st', sch')"
  using assms
proof (induction g arbitrary: i st sch)
  case Nil
  then show ?case by simp
next
  case (Cons e g)
  from Cons.prems have e: "e \<in> E" and g: "set g \<subseteq> E" and i: "i < length av"
    and len: "Suc i + length g \<le> length av" by auto
  from Cons.prems(4) have six': "list_ex is6UnitSubject g \<longrightarrow> six" by simp
  have free: "distinct rooms \<longrightarrow> av ! i \<in> set rooms \<and> av ! i \<notin> occupiedAt st (dayLabel day) (slotLabel slot)"
    using Cons.prems(3) i by (auto simp: freeFrom_def)
  show ?case
  proof (cases "is6UnitSubject e")
    case True
    with Cons.prems(4) have six: six by simp
    show ?thesis
    proof (cases "schedule6UnitExam e day slot (av ! i) st sch")
      case None
      with True Cons.prems(6) have "(st', sch') = (st, sch)" by simp
      with Cons.prems(5) show ?thesis by simp
    next
      case (Some p)
      obtain st1 sch1 where p: "p = (st1, sch1)" by (cases p)
      from Some have lt: "slot < 7" by (auto simp: schedule6UnitExam_def split: if_splits)
      have free2: "distinct rooms \<longrightarrow> av ! i \<notin> occupiedAt st (dayLabel day) (slotLabel (Suc slot))"
        using Cons.prems(3) i six lt by (auto simp: freeFrom_def)
      have r1: "reach E rooms c (st1, sch1)"
        using reach_schedule6UnitExam [OF Cons.prems(5) e free free2] Some p by simp
      obtain sa scha where a: "scheduleExam e day slot (av ! i) st sch False = (sa, scha)"
        by (cases "scheduleExam e day slot (av ! i) st sch False")
      with Some p lt have b: "scheduleExam e day (Suc slot) (av ! i) sa scha True = (st1, sch1)"
        by (auto simp: schedule6UnitExam_def split: if_splits)
      have inv: "distinct rooms \<longrightarrow> distinct av \<and> set av \<subseteq> set rooms \<and> freeFrom av (Suc i) st1 day slot six"
      proof
        assume d: "distinct rooms"
        with Cons.prems(3) have dav: "distinct av" and sub: "set av \<subseteq> set rooms"
          and fr: "freeFrom av i st day slot six" by auto
        have "freeFrom av (Suc i) sa day slot six"
          using freeFrom_scheduleExam [OF fr dav i, of slot e sch False] a by simp
        then have "freeFrom av (Suc i) st1 day slot six"
          using b occupiedAt_scheduleExam [of e day "Suc slot" "av ! i" sa scha True]
          by (auto simp: freeFrom_def nth_eq_iff_index_eq dav i)
        with dav sub show "distinct av \<and> set av \<subseteq> set rooms \<and> freeFrom av (Suc i) st1 day slot six"
          by simp
      qed
      from True Some p Cons.prems(6)
      have "commitGroup g (Suc i) day slot av st1 sch1 = (ok, st', sch')" by simp
      from Cons.IH [OF g len inv six' r1 this] show ?thesis .
    qed
  next
    case False
    obtain st1 sch1 where a: "scheduleExam e day slot (av ! i) st sch False = (st1, sch1)"
      by (cases "scheduleExam e day slot (av ! i) st sch False")
    have r1: "reach E rooms c (st1, sch1)"
      by (rule reach_scheduleExam [OF Cons.prems(5) e free a])
    have inv: "distinct rooms \<longrightarrow> distinct av \<and> set av \<subseteq> set rooms \<and> freeFrom av (Suc i) st1 day slot six"
    proof
      assume d: "distinct rooms"
      with Cons.prems(3) have dav: "distinct av" and sub: "set av \<subseteq> set rooms"
        and fr: "freeFrom av i st day slot six" by auto
      have "freeFrom av (Suc i) st1 day slot six"
        using freeFrom_scheduleExam [OF fr dav i, of slot e sch False] a by simp
      with dav sub show "distinct av \<and> set av \<subseteq> set rooms \<and> freeFrom av (Suc i) st1 day slot six"
        by simp
    qed
    from False a Cons.prems(6)
    have "commitGroup g (Suc i) day slot av st1 sch1 = (ok, st', sch')" by simp
    from Cons.IH [OF g len inv six' r1 this] show ?thesis .
  qed
qed

lemma tryScheduleGroup_reach:
  assumes "set g \<subseteq> E" "reach E rooms c (st, sch)"
    "tryScheduleGroup g day slot rooms st m sch = (ok, st', sch')"
  shows "reach E rooms c (st', sch')"
proof (cases g)
  case Nil
  with assms show ?thesis by simp
next
  case (Cons e0 es)
  let ?six = "list_ex is6UnitSubject g"
  let ?av = "getAvailableRooms e0 day slot rooms st ?six"
  show ?thesis
  proof (cases "list_ex (\<lambda>e. hasConflict e day slot st m) g \<or> length ?av < length g")
    case True
    with assms(3) Cons have "(st', sch') = (st, sch)" by (auto simp: Let_def split: if_splits)
    with assms(2) show ?thesis by simp
  next
    case False
    with assms(3) Cons have cg: "commitGroup g 0 day slot ?av st sch = (ok, st', sch')"
      by (auto simp: Let_def split: if_splits)
    have fr: "freeFrom ?av 0 st day slot ?six"
      unfolding freeFrom_def
    proof (intro allI impI conjI)
      fix j assume j: "0 \<le> j \<and> j < length ?av"
      then have mem: "?av ! j \<in> set ?av" by simp
      then show "?av ! j \<notin> occupiedAt st (dayLabel day) (slotLabel slot)"
        by (rule getAvailableRooms_free)
      assume "?six \<and> slot < 7"
      then show "?av ! j \<notin> occupiedAt st (dayLabel day) (slotLabel (Suc slot))"
        using getAvailableRooms_free_next [of "?av ! j" e0 day slot rooms st] mem by simp
    qed
    have inv: "distinct rooms \<longrightarrow> distinct ?av \<and> set ?av \<subseteq> set rooms \<and> freeFrom ?av 0 st day slot ?six"
      using fr getAvailableRooms_distinct getAvailableRooms_subset by blast
    from False have len: "0 + length g \<le> length ?av" by simp
    show ?thesis
      by (rule commitGroup_reach [OF assms(1) len inv _ assms(2) cg]) simp
  qed
qed

lemma scanGrid_reach:
  assumes "set g \<subseteq> E" "reach E rooms c (st, sch)"
    "scanGrid g cells rooms m st sch = (ok, st', sch')"
  shows "reach E rooms c (st', sch')"
  using assms(2,3)
proof (induction cells arbitrary: st sch)
  case Nil
  then show ?case by simp
next
  case (Cons cell cells)
  obtain day slot where cell: "cell = (day, slot)" by (cases cell)
  obtain ok1 st1 sch1 where t: "tryScheduleGroup g day slot rooms st m sch = (ok1, st1, sch1)"
    by (cases "tryScheduleGroup g day slot rooms st m sch")
  have r1: "reach E rooms c (st1, sch1)"
    by (rule tryScheduleGroup_reach [OF assms(1) Cons.prems(1) t])
  show ?case
  proof (cases ok1)
    case True
    with Cons.prems(2) cell t have "(st', sch') = (st1, sch1)" by simp
    with r1 show ?thesis by simp
  next
    case False
    with Cons.prems(2) cell t have "scanGrid g cells rooms m st1 sch1 = (ok, st', sch')" by simp
    from Cons.IH [OF r1 this] show ?thesis .
  qed
qed

lemma scanBlocks_reach:
  assumes "set g \<subseteq> E" "reach E rooms c (st, sch)"
    "scanBlocks g blocks numDays rooms m st sch = (ok, st', sch')"
  shows "reach E rooms c (st', sch')"
  using assms(2,3)
proof (induction blocks arbitrary: st sch)
  case Nil
  then show ?case by simp
next
  case (Cons b blocks)
  show ?case
  proof (cases "block_day b < numDays")
    case inGrid: True
    obtain ok1 st1 sch1 where t:
      "tryScheduleGroup g (block_day b) (block_slot b) rooms st m sch = (ok1, st1, sch1)"
      by (cases "tryScheduleGroup g (block_day b) (block_slot b) rooms st m sch")
    have r1: "reach E rooms c (st1, sch1)"
      by (rule tryScheduleGroup_reach [OF assms(1) Cons.prems(1) t])
    show ?thesis
    proof (cases ok1)
      case True
      with Cons.prems(2) inGrid t have "(st', sch') = (st1, sch1)" by simp
      with r1 show ?thesis by simp
    next
      case False
      with Cons.prems(2) inGrid t
      have "scanBlocks g blocks numDays rooms m st1 sch1 = (ok, st', sch')" by simp
      from Cons.IH [OF r1 this] show ?thesis .
    qed
  next
    case False
    with Cons.prems(2) have "scanBlocks g blocks numDays rooms m st sch = (ok, st', sch')" by simp
    from Cons.IH [OF Cons.prems(1) this] show ?thesis .
  qed
qed

lemma scanIndividual_reach:
  assumes "e \<in> E" "reach E rooms c (st, sch)"
    "scanIndividual e cells rooms m st sch = (ok, st', sch')"
  shows "reach E rooms c (st', sch')"
  using assms(3)
proof (induction cells)
  case Nil
  with assms(2) show ?case by simp
next
  case (Cons cell cells)
  obtain day slot where cell: "cell = (day, slot)" by (cases cell)
  let ?av = "getAvailableRooms e day slot rooms st (is6UnitSubject e)"
  show ?case
  proof (cases "hasConflict e day slot st m")
    case True
    with Cons cell show ?thesis by simp
  next
    case noConflict: False
    show ?thesis
    proof (cases ?av)
      case Nil
      with Cons cell noConflict show ?thesis by simp
    next
      case (Cons room more)
      then have mem: "room \<in> set ?av" by simp
      have f1: "distinct rooms \<longrightarrow> room \<in> set rooms \<and> room \<notin> occupiedAt st (dayLabel day) (slotLabel slot)"
        using mem getAvailableRooms_subset getAvailableRooms_free by blast
      show ?thesis
      proof (cases "is6UnitSubject e")
        case six: True
        show ?thesis
        proof (cases "schedule6UnitExam e day slot room st sch")
          case None
          with Cons.prems Cons.IH cell noConflict Cons six show ?thesis
            by (simp add: \<open>?av = room # more\<close>)
        next
          case (Some p)
          obtain st1 sch1 where p: "p = (st1, sch1)" by (cases p)
          from Some have lt: "slot < 7" by (auto simp: schedule6UnitExam_def split: if_splits)
          have f2: "distinct rooms \<longrightarrow> room \<notin> occupiedAt st (dayLabel day) (slotLabel (Suc slot))"
            using getAvailableRooms_free_next [of room e day slot rooms st] mem six lt by simp
          have "reach E rooms c (st1, sch1)"
            using reach_schedule6UnitExam [OF assms(2,1) f1 f2] Some p by simp
          moreover have "(st', sch') = (st1, sch1)"
            using \<open>scanIndividual e (cell # cells) rooms m st sch = (ok, st', sch')\<close>
              cell noConflict six Some p \<open>?av = room # more\<close> by simp
          ultimately show ?thesis by simp
        qed
      next
        case False
        obtain st1 sch1 where a: "scheduleExam e day slot room st sch False = (st1, sch1)"
          by (cases "scheduleExam e day slot room st sch False")
        have "reach E rooms c (st1, sch1)"
          by (rule reach_scheduleExam [OF assms(2,1) f1 a])
        moreover have "(st', sch') = (st1, sch1)"
          using \<open>scanIndividual e (cell # cells) rooms m st sch = (ok, st', sch')\<close>
            cell noConflict False a \<open>?av = room # more\<close> by simp
        ultimately show ?thesis by simp
      qed
    qed
  qed
qed

section \<open>Groups\<close>

lemma pushGroup_members:
  "p \<in> set (pushGroup k e gs) \<Longrightarrow> x \<in> set (snd p) \<Longrightarrow>
   x = e \<or> (\<exists>q \<in> set gs. x \<in> set (snd q))"
  by (induction k e gs rule: pushGroup.induct) (auto split: if_splits)

lemma groupStep_members:
  "p \<in> set (groupStep f e gs) \<Longrightarrow> x \<in> set (snd p) \<Longrightarrow>
   x = e \<or> (\<exists>q \<in> set gs. x \<in> set (snd q))"
proof (cases "f e")
  case None
  assume "p \<in> set (groupStep f e gs)" "x \<in> set (snd p)"
  with None show ?thesis by (auto simp: groupStep_def)
next
  case (Some k)
  assume "p \<in> set (groupStep f e gs)" "x \<in> set (snd p)"
  with Some have "p \<in> set (pushGroup k e gs)" "x \<in> set (snd p)" by (simp_all add: groupStep_def)
  then show ?thesis by (rule pushGroup_members)
qed

lemma fold_groupStep_members:
  "p \<in> set (fold (groupStep f) xs gs) \<Longrightarrow> x \<in> set (snd p) \<Longrightarrow>
   x \<in> set xs \<or> (\<exists>q \<in> set gs. x \<in> set (snd q))"
proof (induction xs arbitrary: gs)
  case Nil
  then show ?case by auto
next
  case (Cons a xs)
  from Cons.prems have "p \<in> set (fold (groupStep f) xs (groupStep f a gs))" by simp
  from Cons.IH [OF this Cons.prems(2)]
  consider "x \<in> set xs" | q where "q \<in> set (groupStep f a gs)" "x \<in> set (snd q)" by auto
  then show ?case
  proof cases
    case 1
    then show ?thesis by simp
  next
    case 2
    from groupStep_members [OF 2] show ?thesis by auto
  qed
qed

lemma groups_subset:
  assumes "p \<in> set (fold (groupStep f) xs [])"
  shows "set (snd p) \<subseteq> set xs"
proof
  fix x assume "x \<in> set (snd p)"
  from fold_groupStep_members [OF assms this] show "x \<in> set xs" by simp
qed

lemma groupExamsBySubject_subset:
  "p \<in> set (groupExamsBySubject xs) \<Longrightarrow> set (snd p) \<subseteq> set xs"
  unfolding groupExamsBySubject_def by (rule groups_subset)

lemma groups_in:
  assumes "set xs \<subseteq> E" "p \<in> set (fold (groupStep f) xs [])"
  shows "set (snd p) \<subseteq> E"
  using groups_subset [OF assms(2)] assms(1) by (rule subset_trans)

lemma subject_groups_in:
  assumes "set xs \<subseteq> E" "p \<in> set (groupExamsBySubject xs)"
  shows "set (snd p) \<subseteq> E"
  using groupExamsBySubject_subset [OF assms(2)] assms(1) by (rule subset_trans)

section \<open>Phases\<close>

lemma record_outcome_ok:
  assumes "set g \<subseteq> E" "set failed \<subseteq> E" "reach E rooms c (st1, sch1)"
  shows "accOK E rooms c (record_outcome g cnt failed (ok, st1, sch1))"
  using assms by (cases ok) (auto simp: accOK_def record_outcome_def)

lemma gridStep_ok:
  assumes "set (snd p) \<subseteq> E" "accOK E rooms c acc"
  shows "accOK E rooms c (gridStep numDays rooms m p acc)"
proof -
  obtain sid g where p: "p = (sid, g)" by (cases p)
  obtain cnt failed st sch where acc: "acc = (cnt, failed, st, sch)" by (cases acc)
  obtain ok st1 sch1 where s: "scanGrid g (gridCells numDays) rooms m st sch = (ok, st1, sch1)"
    by (cases "scanGrid g (gridCells numDays) rooms m st sch")
  from assms p acc have g: "set g \<subseteq> E" and f: "set failed \<subseteq> E" and r: "reach E rooms c (st, sch)"
    by (auto simp: accOK_def)
  have "reach E rooms c (st1, sch1)" by (rule scanGrid_reach [OF g r s])
  from record_outcome_ok [OF g f this] show ?thesis
    by (simp add: gridStep_def p acc s)
qed

lemma blockStep_ok:
  assumes "set (snd p) \<subseteq> E" "accOK E rooms c acc"
  shows "accOK E rooms c (blockStep blocks numDays rooms m p acc)"
proof -
  obtain sid g where p: "p = (sid, g)" by (cases p)
  obtain cnt failed st sch where acc: "acc = (cnt, failed, st, sch)" by (cases acc)
  obtain ok st1 sch1 where s: "scanBlocks g blocks numDays rooms m st sch = (ok, st1, sch1)"
    by (cases "scanBlocks g blocks numDays rooms m st sch")
  from assms p acc have g: "set g \<subseteq> E" and f: "set failed \<subseteq> E" and r: "reach E rooms c (st, sch)"
    by (auto simp: accOK_def)
  have "reach E rooms c (st1, sch1)" by (rule scanBlocks_reach [OF g r s])
  from record_outcome_ok [OF g f this] show ?thesis
    by (simp add: blockStep_def p acc s)
qed

lemma fold_gridStep_ok:
  assumes "\<And>p. p \<in> set groups \<Longrightarrow> set (snd p) \<subseteq> E" "accOK E rooms c acc"
  shows "accOK E rooms c (fold (gridStep numDays rooms m) groups acc)"
  by (rule fold_invariant [where Q = "\<lambda>p. set (snd p) \<subseteq> E"])
     (use assms in \<open>auto intro: gridStep_ok\<close>)

lemma fold_blockStep_ok:
  assumes "\<And>p. p \<in> set groups \<Longrightarrow> set (snd p) \<subseteq> E" "accOK E rooms c acc"
  shows "accOK E rooms c (fold (blockStep blocks numDays rooms m) groups acc)"
  by (rule fold_invariant [where Q = "\<lambda>p. set (snd p) \<subseteq> E"])
     (use assms in \<open>auto intro: blockStep_ok\<close>)

lemma genEdStep_ok:
  assumes "set (snd p) \<subseteq> E" "accOK E rooms c acc"
  shows "accOK E rooms c (genEdStep numDays rooms m p acc)"
proof -
  obtain ty xs where p: "p = (ty, xs)" by (cases p)
  from assms(1) p have xs: "set xs \<subseteq> E" by simp
  have sub: "\<And>q. q \<in> set (groupExamsBySubject xs) \<Longrightarrow> set (snd q) \<subseteq> E"
    by (rule subject_groups_in [OF xs])
  show ?thesis
    unfolding genEdStep_def p
    by (simp add: Let_def fold_gridStep_ok [OF sub assms(2)] fold_blockStep_ok [OF sub assms(2)])
qed

lemma accOK_start: "reach E rooms c (st, sch) \<Longrightarrow> accOK E rooms c (0, [], st, sch)"
  by (simp add: accOK_def)

lemma scheduleGenEdTimeBlocks_ok:
  assumes "set exams \<subseteq> E" "reach E rooms c (st, sch)"
  shows "accOK E rooms c (scheduleGenEdTimeBlocks exams rooms st m sch numDays)"
proof -
  have sub: "\<And>p. p \<in> set (fold (groupStep (\<lambda>e. getGenEdType (subjectId e))) exams []) \<Longrightarrow> set (snd p) \<subseteq> E"
    by (rule groups_in [OF assms(1)])
  show ?thesis
    unfolding scheduleGenEdTimeBlocks_def Let_def
    by (rule fold_invariant [where Q = "\<lambda>p. set (snd p) \<subseteq> E"])
       (use sub accOK_start [OF assms(2)] in \<open>auto intro: genEdStep_ok\<close>)
qed

lemma scheduleHighPriority_ok:
  assumes "set exams \<subseteq> E" "reach E rooms c (st, sch)"
  shows "accOK E rooms c (scheduleHighPriority exams rooms st m sch numDays)"
proof -
  have sub1: "\<And>p. p \<in> set (groupExamsBySubject (filter isMathSubject exams)) \<Longrightarrow> set (snd p) \<subseteq> E"
    by (rule subject_groups_in [of "filter isMathSubject exams"]) (use assms(1) in auto)
  have sub2: "\<And>p. p \<in> set (groupExamsBySubject (filter (\<lambda>e. isArchSubject (subjectId e)) exams))
      \<Longrightarrow> set (snd p) \<subseteq> E"
    by (rule subject_groups_in [of "filter (\<lambda>e. isArchSubject (subjectId e)) exams"])
       (use assms(1) in auto)
  show ?thesis
    unfolding scheduleHighPriority_def Let_def
    by (rule fold_gridStep_ok [OF sub2 fold_gridStep_ok [OF sub1 accOK_start [OF assms(2)]]])
qed

lemma scheduleMajorSubjects_ok:
  assumes "set exams \<subseteq> E" "reach E rooms c (st, sch)"
  shows "accOK E rooms c (scheduleMajorSubjects exams rooms st m sch numDays)"
proof -
  have sub: "\<And>p. p \<in> set (sort_key (\<lambda>(sid, g). length g) (groupExamsBySubject exams))
      \<Longrightarrow> set (snd p) \<subseteq> E"
    using subject_groups_in [OF assms(1)] by simp
  show ?thesis
    unfolding scheduleMajorSubjects_def Let_def
    by (rule fold_gridStep_ok [OF sub accOK_start [OF assms(2)]])
qed

lemma individualStep_reach:
  assumes "e \<in> E" "reach E rooms c (snd acc)"
  shows "reach E rooms c (snd (individualStep numDays rooms m e acc))"
proof -
  obtain cnt st sch where acc: "acc = (cnt, st, sch)" by (cases acc)
  obtain ok st1 sch1 where s: "scanIndividual e (gridCells numDays) rooms m st sch = (ok, st1, sch1)"
    by (cases "scanIndividual e (gridCells numDays) rooms m st sch")
  from assms(2) acc have r: "reach E rooms c (st, sch)" by simp
  have "reach E rooms c (st1, sch1)" by (rule scanIndividual_reach [OF assms(1) r s])
  then show ?thesis by (cases ok) (simp_all add: individualStep_def acc s)
qed

lemma scheduleIndividually_reach:
  assumes "set exams \<subseteq> E" "reach E rooms c (st, sch)"
    "scheduleIndividually exams rooms st m sch numDays = (cnt, st', sch')"
  shows "reach E rooms c (st', sch')"
proof -
  have "reach E rooms c (snd (fold (individualStep numDays rooms m) exams (0, st, sch)))"
  proof (rule fold_invariant [where Q = "\<lambda>e. e \<in> E"])
    show "\<And>x. x \<in> set exams \<Longrightarrow> x \<in> E" using assms(1) by auto
    show "reach E rooms c (snd (0 :: nat, st, sch))" using assms(2) by simp
    show "\<And>x s. x \<in> E \<Longrightarrow> reach E rooms c (snd s) \<Longrightarrow>
        reach E rooms c (snd (individualStep numDays rooms m x s))"
      by (rule individualStep_reach)
  qed
  with assms(3) show ?thesis by (simp add: scheduleIndividually_def)
qed

lemma runPhases_reach:
  assumes "runPhases exams rooms numDays = (n, st, sch)"
  shows "reach (set (eligibleExams exams)) rooms (initialState, []) (st, sch)"
proof -
  let ?E = "set (eligibleExams exams)"
  let ?c = "(initialState, [] :: scheduled_map)"
  let ?m = "buildConflictMatrix (eligibleExams exams)"
  let ?genEds = "filter (\<lambda>e. isGenEdSubject (subjectId e)) (eligibleExams exams)"
  let ?math = "filter isMathSubject (eligibleExams exams)"
  let ?arch = "filter (\<lambda>e. isArchSubject (subjectId e)) (eligibleExams exams)"
  let ?major = "filter (\<lambda>e. \<not> isGenEdSubject (subjectId e) \<and> \<not> isMathSubject e
                                        \<and> \<not> isArchSubject (subjectId e)) (eligibleExams exams)"
  obtain c1 f1 st1 sch1 where p1:
    "scheduleGenEdTimeBlocks ?genEds rooms initialState ?m [] numDays = (c1, f1, st1, sch1)"
    by (cases "scheduleGenEdTimeBlocks ?genEds rooms initialState ?m [] numDays")
  obtain c2 f2 st2 sch2 where p2:
    "scheduleHighPriority (?math @ ?arch) rooms st1 ?m sch1 numDays = (c2, f2, st2, sch2)"
    by (cases "scheduleHighPriority (?math @ ?arch) rooms st1 ?m sch1 numDays")
  obtain c3 f3 st3 sch3 where p3:
    "scheduleMajorSubjects ?major rooms st2 ?m sch2 numDays = (c3, f3, st3, sch3)"
    by (cases "scheduleMajorSubjects ?major rooms st2 ?m sch2 numDays")
  obtain c4 st4 sch4 where p4:
    "scheduleIndividually (f1 @ f2 @ f3) rooms st3 ?m sch3 numDays = (c4, st4, sch4)"
    by (cases "scheduleIndividually (f1 @ f2 @ f3) rooms st3 ?m sch3 numDays")
  have r0: "reach ?E rooms ?c (initialState, [])" by (rule reach_refl)
  have "accOK ?E rooms ?c (scheduleGenEdTimeBlocks ?genEds rooms initialState ?m [] numDays)"
    by (rule scheduleGenEdTimeBlocks_ok [OF _ r0]) auto
  with p1 have a1: "set f1 \<subseteq> ?E" "reach ?E rooms ?c (st1, sch1)" by (auto simp: accOK_def)
  have "accOK ?E rooms ?c (scheduleHighPriority (?math @ ?arch) rooms st1 ?m sch1 numDays)"
    by (rule scheduleHighPriority_ok [OF _ a1(2)]) auto
  with p2 have a2: "set f2 \<subseteq> ?E" "reach ?E rooms ?c (st2, sch2)" by (auto simp: accOK_def)
  have "accOK ?E rooms ?c (scheduleMajorSubjects ?major rooms st2 ?m sch2 numDays)"
    by (rule scheduleMajorSubjects_ok [OF _ a2(2)]) auto
  with p3 have a3: "set f3 \<subseteq> ?E" "reach ?E rooms ?c (st3, sch3)" by (auto simp: accOK_def)
  have f: "set (f1 @ f2 @ f3) \<subseteq> ?E" using a1(1) a2(1) a3(1) by simp
  have "reach ?E rooms ?c (st4, sch4)"
    by (rule scheduleIndividually_reach [OF f a3(2) p4])
  moreover have "(st, sch) = (st4, sch4)"
    using assms by (simp add: runPhases_def Let_def p1 p2 p3 p4)
  ultimately show ?thesis by simp
qed

section \<open>What a run preserves\<close>

lemma keysOK_update:
  assumes "keysOK sch"
  shows "keysOK (AList.update (scheduledKey (code e) sk) (scheduledEntry e dk sk room) sch)"
proof -
  let ?k = "scheduledKey (code e) sk" and ?v = "scheduledEntry e dk sk room"
  from assms have d: "distinct (map fst (AList.update ?k ?v sch))"
    by (simp add: keysOK_def distinct_update)
  have "\<forall>(k, s) \<in> set (AList.update ?k ?v sch). k = scheduledKey (CODE s) (SLOT s)"
  proof (clarify)
    fix k s assume "(k, s) \<in> set (AList.update ?k ?v sch)"
    with set_update_subset [of ?k ?v sch] have "(k, s) = (?k, ?v) \<or> (k, s) \<in> set sch" by auto
    then show "k = scheduledKey (CODE s) (SLOT s)"
      using assms by (auto simp: keysOK_def)
  qed
  with d show ?thesis by (simp add: keysOK_def)
qed

lemma reach_keysOK:
  "reach E rooms c c' \<Longrightarrow> keysOK (snd c) \<Longrightarrow> keysOK (snd c')"
proof (induction rule: reach.induct)
  case reach_refl
  then show ?case .
next
  case (reach_step st scheduled e room day slot b)
  then have "keysOK scheduled" by simp
  then show ?case by (simp add: snd_scheduleExam keysOK_update)
qed

lemma entriesFrom_update:
  assumes "entriesFrom E sch" "e \<in> E"
  shows "entriesFrom E (AList.update k (scheduledEntry e dk sk room) sch)"
  unfolding entriesFrom_def
proof (clarify)
  fix k' s assume "(k', s) \<in> set (AList.update k (scheduledEntry e dk sk room) sch)"
  with set_update_subset [of k "scheduledEntry e dk sk room" sch]
  have "s = scheduledEntry e dk sk room \<or> (k', s) \<in> set sch" by auto
  then show "\<exists>e \<in> E. s = scheduledEntry e (DAY s) (SLOT s) (ROOM s)"
  proof
    assume s: "s = scheduledEntry e dk sk room"
    have "s = scheduledEntry e (DAY s) (SLOT s) (ROOM s)"
      unfolding s by (simp only: scheduledEntry_again)
    with assms(2) show ?thesis by blast
  next
    assume "(k', s) \<in> set sch"
    with assms(1) show ?thesis by (auto simp: entriesFrom_def)
  qed
qed

lemma reach_entriesFrom:
  "reach E rooms c c' \<Longrightarrow> entriesFrom E (snd c) \<Longrightarrow> entriesFrom E (snd c')"
proof (induction rule: reach.induct)
  case reach_refl
  then show ?case .
next
  case (reach_step st scheduled e room day slot b)
  then have "entriesFrom E scheduled" by simp
  with reach_step.hyps(2) show ?case by (simp add: snd_scheduleExam entriesFrom_update)
qed

lemma bookingsOK_scheduleExam:
  assumes ok: "bookingsOK (st, sch)"
    and free: "room \<notin> occupiedAt st (dayLabel day) (slotLabel slot)"
  shows "bookingsOK (scheduleExam e day slot room st sch b)"
proof -
  let ?k = "scheduledKey (code e) (slotLabel slot)"
  let ?v = "scheduledEntry e (dayLabel day) (slotLabel slot) room"
  obtain st' sch' where eq: "scheduleExam e day slot room st sch b = (st', sch')"
    by (cases "scheduleExam e day slot room st sch b")
  have sch': "sch' = AList.update ?k ?v sch"
    using snd_scheduleExam [of e day slot room st sch b] eq by simp
  have occ: "\<And>dk sk. occupiedAt st' dk sk =
     (if dk = dayLabel day \<and> sk = slotLabel slot then insert room (occupiedAt st dk sk)
      else occupiedAt st dk sk)"
    using occupiedAt_scheduleExam [of e day slot room st sch b] eq by simp
  from ok have led: "\<forall>(k, s) \<in> set sch. ROOM s \<in> occupiedAt st (DAY s) (SLOT s)"
    and dis: "distinct (map (\<lambda>(k, s). bookingOf s) sch)"
    by (auto simp: bookingsOK_def)
  have new: "(\<lambda>(k, s). bookingOf s) (?k, ?v) \<notin> (\<lambda>(k, s). bookingOf s) ` set sch"
  proof
    assume "(\<lambda>(k, s). bookingOf s) (?k, ?v) \<in> (\<lambda>(k, s). bookingOf s) ` set sch"
    then obtain k s where ks: "(k, s) \<in> set sch" "bookingOf s = bookingOf ?v" by auto
    from ks(2) have "DAY s = dayLabel day" "SLOT s = slotLabel slot" "ROOM s = room"
      by (simp_all add: bookingOf_def)
    with led ks(1) have "room \<in> occupiedAt st (dayLabel day) (slotLabel slot)" by auto
    with free show False by simp
  qed
  have d': "distinct (map (\<lambda>(k, s). bookingOf s) sch')"
    unfolding sch' by (rule distinct_map_update [OF dis new])
  have led': "\<forall>(k, s) \<in> set sch'. ROOM s \<in> occupiedAt st' (DAY s) (SLOT s)"
  proof (clarify)
    fix k s assume "(k, s) \<in> set sch'"
    with set_update_subset [of ?k ?v sch] have "s = ?v \<or> (k, s) \<in> set sch"
      unfolding sch' by auto
    then show "ROOM s \<in> occupiedAt st' (DAY s) (SLOT s)"
      using led by (auto simp: occ)
  qed
  from d' led' show ?thesis unfolding eq by (simp add: bookingsOK_def)
qed

lemma reach_bookingsOK:
  "reach E rooms c c' \<Longrightarrow> distinct rooms \<Longrightarrow> bookingsOK c \<Longrightarrow> bookingsOK c'"
proof (induction rule: reach.induct)
  case reach_refl
  then show ?case by simp
next
  case (reach_step st scheduled e room day slot b)
  then have "bookingsOK (st, scheduled)"
    and "room \<notin> occupiedAt st (dayLabel day) (slotLabel slot)" by simp_all
  then show ?case by (rule bookingsOK_scheduleExam)
qed

lemma reach_occupied_mono:
  "reach E rooms c c' \<Longrightarrow> occupiedAt (fst c) dk sk \<subseteq> occupiedAt (fst c') dk sk"
proof (induction rule: reach.induct)
  case reach_refl
  then show ?case by simp
next
  case (reach_step st scheduled e room day slot b)
  then show ?case by (auto simp: occupiedAt_scheduleExam)
qed

lemma reach_keys_mono:
  "reach E rooms c c' \<Longrightarrow> fst ` set (snd c) \<subseteq> fst ` set (snd c')"
proof (induction rule: reach.induct)
  case reach_refl
  then show ?case by simp
next
  case (reach_step st scheduled e room day slot b)
  then show ?case by (auto simp: snd_scheduleExam dom_update)
qed

lemma distinct_map_comp:
  "distinct (map (\<lambda>x. h (f x)) xs) \<Longrightarrow> distinct (map f xs)"
  by (induction xs) auto

lemma keysOK_distinct_pairs:
  assumes "keysOK sch"
  shows "distinct (map (\<lambda>s. (CODE s, SLOT s)) (map snd sch))"
proof -
  from assms have "map fst sch = map (\<lambda>p. scheduledKey (CODE (snd p)) (SLOT (snd p))) sch"
    by (auto simp: keysOK_def)
  with assms have "distinct (map (\<lambda>p. (\<lambda>(c, l). scheduledKey c l) ((\<lambda>p. (CODE (snd p), SLOT (snd p))) p)) sch)"
    by (simp add: keysOK_def)
  then have "distinct (map (\<lambda>p. (CODE (snd p), SLOT (snd p))) sch)"
    by (rule distinct_map_comp)
  then show ?thesis by (simp add: comp_def)
qed

lemma update_present:
  "k \<in> fst ` set al \<Longrightarrow> map fst (AList.update k v al) = map fst al"
  by (simp add: update_keys)

lemma start_ok: "keysOK [] \<and> entriesFrom E [] \<and> bookingsOK (initialState, [])"
  by (simp add: keysOK_def entriesFrom_def bookingsOK_def)

section \<open>The empty ledger and the first cell of the grid\<close>







lemma tryScheduleGroup_result:
  "fst (tryScheduleGroup g day slot rooms st m sch) = True \<Longrightarrow>
   tryScheduleGroup g day slot rooms st m sch =
     (True, fst (snd (tryScheduleGroup g day slot rooms st m sch)),
            snd (snd (tryScheduleGroup g day slot rooms st m sch)))"
  by (cases "tryScheduleGroup g day slot rooms st m sch") simp

lemma scanIndividual_result:
  "fst (scanIndividual e cells rooms m st sch) = True \<Longrightarrow>
   scanIndividual e cells rooms m st sch =
     (True, fst (snd (scanIndividual e cells rooms m st sch)),
            snd (snd (scanIndividual e cells rooms m st sch)))"
  by (cases "scanIndividual e cells rooms m st sch") simp

section \<open>What a successful placement has checked\<close>

lemma hasConflict_iff:
  "hasConflict e day slot st m \<longleftrightarrow>
     (\<exists>k B. courseYearKey e = Some k \<and> conflictEdge m k (normSubject e) B \<and>
        subjectScheduled st B = Some (dayLabel day, slotLabel slot))"
  by (auto simp: hasConflict_def conflictEdge_def split: option.splits)

lemma commitGroup_recorded:
  assumes "commitGroup g i day slot av st sch = (True, st', sch')"
  shows "\<forall>B. subjectScheduled st' B =
      (if B \<in> normSubject ` set g then Some (dayLabel day, slotLabel slot)
       else subjectScheduled st B)"
  using assms
proof (induction g arbitrary: i st sch)
  case Nil
  then show ?case by simp
next
  case (Cons e g)
  obtain st1 sch1 where a: "scheduleExam e day slot (av ! i) st sch False = (st1, sch1)"
    by (cases "scheduleExam e day slot (av ! i) st sch False")
  then have s1: "subjectScheduled st1 = (subjectScheduled st)(normSubject e \<mapsto> (dayLabel day, slotLabel slot))"
    using subjectScheduled_scheduleExam [of e day slot "av ! i" st sch False] by simp
  show ?case
  proof (cases "is6UnitSubject e")
    case True
    with Cons.prems obtain st2 sch2 where
      six: "schedule6UnitExam e day slot (av ! i) st sch = Some (st2, sch2)"
      and rest: "commitGroup g (Suc i) day slot av st2 sch2 = (True, st', sch')"
      by (auto split: option.splits)
    from six a have "scheduleExam e day (slot + 1) (av ! i) st1 sch1 True = (st2, sch2)"
      by (auto simp: schedule6UnitExam_def split: if_splits)
    then have "subjectScheduled st2 = subjectScheduled st1"
      using subjectScheduled_scheduleExam [of e day "slot + 1" "av ! i" st1 sch1 True] by simp
    with s1 Cons.IH [OF rest] show ?thesis by auto
  next
    case False
    with Cons.prems a have "commitGroup g (Suc i) day slot av st1 sch1 = (True, st', sch')"
      by simp
    from Cons.IH [OF this] s1 show ?thesis by auto
  qed
qed

lemma tryScheduleGroup_success:
  assumes "tryScheduleGroup g day slot rooms st m sch = (True, st', sch')" "e \<in> set g"
  shows "\<not> hasConflict e day slot st m
       \<and> subjectScheduled st' (normSubject e) = Some (dayLabel day, slotLabel slot)"
proof (cases g)
  case Nil
  with assms(2) show ?thesis by simp
next
  case (Cons e0 es)
  let ?av = "getAvailableRooms e0 day slot rooms st (list_ex is6UnitSubject g)"
  from assms(1) Cons have nc: "\<not> list_ex (\<lambda>e. hasConflict e day slot st m) g"
    by (auto simp: Let_def split: if_splits)
  with assms(1) Cons have "commitGroup g 0 day slot ?av st sch = (True, st', sch')"
    by (auto simp: Let_def split: if_splits)
  from commitGroup_recorded [OF this] assms(2)
  have "subjectScheduled st' (normSubject e) = Some (dayLabel day, slotLabel slot)" by auto
  moreover from nc assms(2) have "\<not> hasConflict e day slot st m" by (auto simp: list_ex_iff)
  ultimately show ?thesis by simp
qed

lemma schedule6UnitExam_subject:
  assumes "schedule6UnitExam e day slot room st sch = Some (st', sch')"
  shows "subjectScheduled st' = (subjectScheduled st)(normSubject e \<mapsto> (dayLabel day, slotLabel slot))"
proof -
  obtain st1 sch1 where a: "scheduleExam e day slot room st sch False = (st1, sch1)"
    by (cases "scheduleExam e day slot room st sch False")
  with assms have b: "scheduleExam e day (slot + 1) room st1 sch1 True = (st', sch')"
    by (auto simp: schedule6UnitExam_def split: if_splits)
  from a have "subjectScheduled st1 = (subjectScheduled st)(normSubject e \<mapsto> (dayLabel day, slotLabel slot))"
    using subjectScheduled_scheduleExam [of e day slot room st sch False] by simp
  moreover from b have "subjectScheduled st' = subjectScheduled st1"
    using subjectScheduled_scheduleExam [of e day "slot + 1" room st1 sch1 True] by simp
  ultimately show ?thesis by simp
qed

lemma scanIndividual_success:
  assumes "scanIndividual e cells rooms m st sch = (True, st', sch')"
  shows "\<exists>(day, slot) \<in> set cells. \<not> hasConflict e day slot st m \<and>
      subjectScheduled st' = (subjectScheduled st)(normSubject e \<mapsto> (dayLabel day, slotLabel slot))"
  using assms
proof (induction cells)
  case Nil
  then show ?case by simp
next
  case (Cons cell cells)
  obtain day slot where cell: "cell = (day, slot)" by (cases cell)
  let ?av = "getAvailableRooms e day slot rooms st (is6UnitSubject e)"
  consider (skip) "scanIndividual e cells rooms m st sch = (True, st', sch')"
    | (six) room where "\<not> hasConflict e day slot st m"
        "schedule6UnitExam e day slot room st sch = Some (st', sch')"
    | (one) room where "\<not> hasConflict e day slot st m"
        "scheduleExam e day slot room st sch False = (st', sch')"
    using Cons.prems cell
    by (auto split: if_splits list.splits option.splits prod.splits)
  then show ?case
  proof cases
    case skip
    from Cons.IH [OF this] show ?thesis by auto
  next
    case six
    from schedule6UnitExam_subject [OF six(2)] six(1) cell show ?thesis by auto
  next
    case one
    from one(2) have "subjectScheduled st' = (subjectScheduled st)(normSubject e \<mapsto> (dayLabel day, slotLabel slot))"
      using subjectScheduled_scheduleExam [of e day slot room st sch False] by simp
    with one(1) cell show ?thesis by auto
  qed
qed

section \<open>Keys and labels of valid slots\<close>

lemma scheduledKey_inj_slot: "scheduledKey c l = scheduledKey c l' \<Longrightarrow> slotText l = slotText l'"
  by (simp add: scheduledKey_def)


section \<open>Keys of different sections\<close>







section \<open>The two entries of a double-unit section\<close>






section \<open>When a failed group placement writes nothing\<close>

lemma commitGroup_succeeds:
  assumes "slot < 7 \<or> \<not> list_ex is6UnitSubject g"
  shows "fst (commitGroup g i day slot av st sch)"
  using assms
proof (induction g arbitrary: i st sch)
  case Nil
  then show ?case by simp
next
  case (Cons e g)
  then show ?case
    by (auto simp: schedule6UnitExam_def split: option.splits prod.splits)
qed

lemma tryScheduleGroup_failure_clean:
  assumes "tryScheduleGroup g day slot rooms st m sch = (False, st', sch')"
    "slot < 7 \<or> \<not> list_ex is6UnitSubject g"
  shows "st' = st \<and> sch' = sch"
proof (cases g)
  case Nil
  with assms(1) show ?thesis by simp
next
  case (Cons e0 es)
  let ?av = "getAvailableRooms e0 day slot rooms st (list_ex is6UnitSubject g)"
  show ?thesis
  proof (cases "list_ex (\<lambda>e. hasConflict e day slot st m) g \<or> length ?av < length g")
    case True
    with assms(1) Cons show ?thesis by (auto simp: Let_def split: if_splits)
  next
    case False
    with assms(1) Cons have "commitGroup g 0 day slot ?av st sch = (False, st', sch')"
      by (auto simp: Let_def split: if_splits)
    with commitGroup_succeeds [OF assms(2), of 0 day ?av st sch] show ?thesis by simp
  qed
qed

section \<open>Runs of the two-phase variant\<close>

lemma snd_scheduleExam_v4:
  "snd (scheduleExam_v4 e day slot room st sch) =
     AList.update (scheduledKey (code e) (slotLabel slot))
       (scheduledEntry_v4 e (dayLabel day) (slotLabel slot) room) sch"
  by (simp add: scheduleExam_v4_def Let_def)

lemma scheduledEntry_v4_sel [simp]:
  "CODE (scheduledEntry_v4 e dk sk room) = code e"
  "DAY (scheduledEntry_v4 e dk sk room) = dk"
  "SLOT (scheduledEntry_v4 e dk sk room) = sk"
  "ROOM (scheduledEntry_v4 e dk sk room) = room"
  "DEPT (scheduledEntry_v4 e dk sk room) = dept e"
  by (simp_all add: scheduledEntry_v4_def)

lemma reach_v4_scheduleExam:
  assumes "reach_v4 E c (st, sch)" "e \<in> E" "scheduleExam_v4 e day slot room st sch = (st', sch')"
  shows "reach_v4 E c (st', sch')"
  using reach_v4_step [OF assms(1,2), of day slot room] assms(3) by simp

lemma commitGroup_v4_reach:
  assumes "set g \<subseteq> E" "reach_v4 E c (st, sch)"
    "commitGroup_v4 g i day slot av st sch = (st', sch')"
  shows "reach_v4 E c (st', sch')"
  using assms
proof (induction g arbitrary: i st sch)
  case Nil
  then show ?case by simp
next
  case (Cons e g)
  obtain st1 sch1 where a: "scheduleExam_v4 e day slot (av ! i) st sch = (st1, sch1)"
    by (cases "scheduleExam_v4 e day slot (av ! i) st sch")
  from Cons.prems(1) have e: "e \<in> E" and g: "set g \<subseteq> E" by auto
  have r1: "reach_v4 E c (st1, sch1)" by (rule reach_v4_scheduleExam [OF Cons.prems(2) e a])
  from Cons.prems(3) a have "commitGroup_v4 g (Suc i) day slot av st1 sch1 = (st', sch')" by simp
  from Cons.IH [OF g r1 this] show ?case .
qed

lemma tryScheduleGroup_v4_reach:
  assumes "set g \<subseteq> E" "reach_v4 E c (st, sch)"
    "tryScheduleGroup_v4 g day slot rooms st m sch = (ok, st', sch')"
  shows "reach_v4 E c (st', sch')"
proof (cases g)
  case Nil
  with assms show ?thesis by simp
next
  case (Cons e0 es)
  let ?av = "getAvailableRooms_v4 e0 day slot rooms st"
  show ?thesis
  proof (cases "list_ex (\<lambda>e. hasConflict e day slot st m) g \<or> length ?av < length g")
    case True
    with assms(3) Cons have "(st', sch') = (st, sch)" by (auto simp: Let_def split: if_splits)
    with assms(2) show ?thesis by simp
  next
    case False
    with assms(3) Cons have "commitGroup_v4 g 0 day slot ?av st sch = (st', sch')"
      by (auto simp: Let_def split: if_splits prod.splits)
    from commitGroup_v4_reach [OF assms(1,2) this] show ?thesis .
  qed
qed

lemma scanGrid_v4_reach:
  assumes "set g \<subseteq> E" "reach_v4 E c (st, sch)"
    "scanGrid_v4 g cells rooms m st sch = (ok, st', sch')"
  shows "reach_v4 E c (st', sch')"
  using assms(2,3)
proof (induction cells arbitrary: st sch)
  case Nil
  then show ?case by simp
next
  case (Cons cell cells)
  obtain day slot where cell: "cell = (day, slot)" by (cases cell)
  obtain ok1 st1 sch1 where t: "tryScheduleGroup_v4 g day slot rooms st m sch = (ok1, st1, sch1)"
    by (cases "tryScheduleGroup_v4 g day slot rooms st m sch")
  have r1: "reach_v4 E c (st1, sch1)"
    by (rule tryScheduleGroup_v4_reach [OF assms(1) Cons.prems(1) t])
  show ?case
  proof (cases ok1)
    case True
    with Cons.prems(2) cell t have "(st', sch') = (st1, sch1)" by simp
    with r1 show ?thesis by simp
  next
    case False
    with Cons.prems(2) cell t have "scanGrid_v4 g cells rooms m st1 sch1 = (ok, st', sch')" by simp
    from Cons.IH [OF r1 this] show ?thesis .
  qed
qed

lemma batchesOf_subset: "b \<in> set (batchesOf g) \<Longrightarrow> set b \<subseteq> set g"
proof -
  assume "b \<in> set (batchesOf g)"
  then obtain j where "b = take maxBatchSize (drop (maxBatchSize * j) g)"
    by (auto simp: batchesOf_def)
  then show ?thesis
    using set_take_subset set_drop_subset by fastforce
qed

lemma batchStep_v4_reach:
  assumes "set b \<subseteq> E" "reach_v4 E c (snd acc)"
  shows "reach_v4 E c (snd (batchStep_v4 numDays rooms m b acc))"
proof -
  obtain fl st sch where acc: "acc = (fl, st, sch)" by (cases acc)
  obtain ok st1 sch1 where s: "scanGrid_v4 b (gridCells numDays) rooms m st sch = (ok, st1, sch1)"
    by (cases "scanGrid_v4 b (gridCells numDays) rooms m st sch")
  from assms(2) acc have r: "reach_v4 E c (st, sch)" by simp
  have "reach_v4 E c (st1, sch1)" by (rule scanGrid_v4_reach [OF assms(1) r s])
  then show ?thesis by (cases ok) (simp_all add: batchStep_v4_def acc s)
qed

lemma tryScheduleGroupAnywhere_v4_reach:
  assumes "set g \<subseteq> E" "reach_v4 E c (st, sch)"
    "tryScheduleGroupAnywhere_v4 g rooms st m sch numDays = (ok, st', sch')"
  shows "reach_v4 E c (st', sch')"
proof (cases "length g \<le> maxBatchSize")
  case True
  with assms(3) have "scanGrid_v4 g (gridCells numDays) rooms m st sch = (ok, st', sch')"
    by (simp add: tryScheduleGroupAnywhere_v4_def)
  from scanGrid_v4_reach [OF assms(1,2) this] show ?thesis .
next
  case False
  have "reach_v4 E c (snd (fold (batchStep_v4 numDays rooms m) (batchesOf g) (True, st, sch)))"
  proof (rule fold_invariant [where Q = "\<lambda>b. set b \<subseteq> E"])
    show "\<And>x. x \<in> set (batchesOf g) \<Longrightarrow> set x \<subseteq> E"
      using batchesOf_subset assms(1) by blast
    show "reach_v4 E c (snd (True, st, sch))" using assms(2) by simp
    show "\<And>x s. set x \<subseteq> E \<Longrightarrow> reach_v4 E c (snd s) \<Longrightarrow>
        reach_v4 E c (snd (batchStep_v4 numDays rooms m x s))"
      by (rule batchStep_v4_reach)
  qed
  with False assms(3) show ?thesis by (simp add: tryScheduleGroupAnywhere_v4_def)
qed

lemma groupStep_v4_ok:
  assumes "set (snd p) \<subseteq> E" "accOK_v4 E c acc"
  shows "accOK_v4 E c (groupStep_v4 numDays rooms m p acc)"
proof -
  obtain sid g where p: "p = (sid, g)" by (cases p)
  obtain cnt failed st sch where acc: "acc = (cnt, failed, st, sch)" by (cases acc)
  obtain ok st1 sch1 where s:
    "tryScheduleGroupAnywhere_v4 g rooms st m sch numDays = (ok, st1, sch1)"
    by (cases "tryScheduleGroupAnywhere_v4 g rooms st m sch numDays")
  from assms p acc have g: "set g \<subseteq> E" and f: "set failed \<subseteq> E"
    and r: "reach_v4 E c (st, sch)"
    by (auto simp: accOK_v4_def)
  have "reach_v4 E c (st1, sch1)" by (rule tryScheduleGroupAnywhere_v4_reach [OF g r s])
  with g f show ?thesis
    by (cases ok) (auto simp: groupStep_v4_def p acc s record_outcome_def accOK_v4_def)
qed

lemma scanExam_v4_reach:
  assumes "e \<in> E" "reach_v4 E c (st, sch)"
    "scanExam_v4 e cells rooms m st sch = (ok, st', sch')"
  shows "reach_v4 E c (st', sch')"
  using assms(3)
proof (induction cells)
  case Nil
  with assms(2) show ?case by simp
next
  case (Cons cell cells)
  obtain day slot where cell: "cell = (day, slot)" by (cases cell)
  consider (skip) "scanExam_v4 e cells rooms m st sch = (ok, st', sch')"
    | (place) room where "scheduleExam_v4 e day slot room st sch = (st', sch')"
    using Cons.prems cell by (auto split: if_splits list.splits prod.splits)
  then show ?case
  proof cases
    case skip
    then show ?thesis by (rule Cons.IH)
  next
    case place
    from reach_v4_scheduleExam [OF assms(2,1) place] show ?thesis .
  qed
qed

lemma examStep_v4_ok:
  assumes "e \<in> E" "accOK_v4 E c acc"
  shows "accOK_v4 E c (examStep_v4 numDays rooms m e acc)"
proof -
  obtain cnt un st sch where acc: "acc = (cnt, un, st, sch)" by (cases acc)
  obtain ok st1 sch1 where s: "tryScheduleExam_v4 e rooms st m sch numDays = (ok, st1, sch1)"
    by (cases "tryScheduleExam_v4 e rooms st m sch numDays")
  from assms(2) acc have u: "set un \<subseteq> E" and r: "reach_v4 E c (st, sch)"
    by (auto simp: accOK_v4_def)
  from s have "scanExam_v4 e (gridCells numDays) rooms m st sch = (ok, st1, sch1)"
    by (simp add: tryScheduleExam_v4_def)
  from scanExam_v4_reach [OF assms(1) r this] have "reach_v4 E c (st1, sch1)" .
  with u assms(1) show ?thesis
    by (cases ok) (auto simp: examStep_v4_def acc s accOK_v4_def)
qed

lemma runPhases_v4_reach:
  assumes "runPhases_v4 exams rooms numDays = (n, un, st, sch)"
  shows "reach_v4 (set (eligibleExams exams)) (initialState, []) (st, sch)"
proof -
  let ?E = "set (eligibleExams exams)"
  let ?c = "(initialState, [] :: scheduled_map)"
  let ?m = "buildConflictMatrix (eligibleExams exams)"
  let ?groups = "sort_key (\<lambda>(sid, g). length g) (groupExamsBySubject (eligibleExams exams))"
  obtain c1 f1 st1 sch1 where p1:
    "fold (groupStep_v4 numDays rooms ?m) ?groups (0, [], initialState, []) = (c1, f1, st1, sch1)"
    by (cases "fold (groupStep_v4 numDays rooms ?m) ?groups (0, [], initialState, [])")
  have sub: "\<And>p. p \<in> set ?groups \<Longrightarrow> set (snd p) \<subseteq> ?E"
    using subject_groups_in [of "eligibleExams exams" ?E] by simp
  have "accOK_v4 ?E ?c (fold (groupStep_v4 numDays rooms ?m) ?groups (0, [], initialState, []))"
  proof (rule fold_invariant [where Q = "\<lambda>p. set (snd p) \<subseteq> ?E"])
    show "\<And>x. x \<in> set ?groups \<Longrightarrow> set (snd x) \<subseteq> ?E" by (rule sub)
    show "accOK_v4 ?E ?c (0, [], initialState, [])"
      by (simp add: accOK_v4_def reach_v4_refl)
    show "\<And>x s. set (snd x) \<subseteq> ?E \<Longrightarrow> accOK_v4 ?E ?c s \<Longrightarrow>
        accOK_v4 ?E ?c (groupStep_v4 numDays rooms ?m x s)"
      by (rule groupStep_v4_ok)
  qed
  with p1 have a1: "accOK_v4 ?E ?c (0, [], st1, sch1)" and f1: "set f1 \<subseteq> ?E"
    by (auto simp: accOK_v4_def)
  have "accOK_v4 ?E ?c (fold (examStep_v4 numDays rooms ?m) f1 (0, [], st1, sch1))"
  proof (rule fold_invariant [where Q = "\<lambda>e. e \<in> ?E"])
    show "\<And>x. x \<in> set f1 \<Longrightarrow> x \<in> ?E" using f1 by auto
    show "accOK_v4 ?E ?c (0, [], st1, sch1)" by (rule a1)
    show "\<And>x s. x \<in> ?E \<Longrightarrow> accOK_v4 ?E ?c s \<Longrightarrow> accOK_v4 ?E ?c (examStep_v4 numDays rooms ?m x s)"
      by (rule examStep_v4_ok)
  qed
  moreover have "fold (examStep_v4 numDays rooms ?m) f1 (0, [], st1, sch1) = (n, un, st, sch)"
    using assms by (simp add: runPhases_v4_def Let_def p1)
  ultimately show ?thesis by (simp add: accOK_v4_def)
qed

lemma keysOK_update_v4:
  assumes "keysOK sch"
  shows "keysOK (AList.update (scheduledKey (code e) sk) (scheduledEntry_v4 e dk sk room) sch)"
proof -
  let ?k = "scheduledKey (code e) sk" and ?v = "scheduledEntry_v4 e dk sk room"
  from assms have d: "distinct (map fst (AList.update ?k ?v sch))"
    by (simp add: keysOK_def distinct_update)
  have "\<forall>(k, s) \<in> set (AList.update ?k ?v sch). k = scheduledKey (CODE s) (SLOT s)"
  proof (clarify)
    fix k s assume "(k, s) \<in> set (AList.update ?k ?v sch)"
    with set_update_subset [of ?k ?v sch] have "(k, s) = (?k, ?v) \<or> (k, s) \<in> set sch" by auto
    then show "k = scheduledKey (CODE s) (SLOT s)"
      using assms by (auto simp: keysOK_def)
  qed
  with d show ?thesis by (simp add: keysOK_def)
qed

lemma reach_v4_keysOK:
  "reach_v4 E c c' \<Longrightarrow> keysOK (snd c) \<Longrightarrow> keysOK (snd c')"
proof (induction rule: reach_v4.induct)
  case reach_v4_refl
  then show ?case .
next
  case (reach_v4_step st scheduled e day slot room)
  then have "keysOK scheduled" by simp
  then show ?case by (simp add: snd_scheduleExam_v4 keysOK_update_v4)
qed

lemma entriesFrom_v4_update:
  assumes "entriesFrom_v4 E sch" "e \<in> E"
  shows "entriesFrom_v4 E (AList.update k (scheduledEntry_v4 e dk sk room) sch)"
  unfolding entriesFrom_v4_def
proof (clarify)
  fix k' s assume "(k', s) \<in> set (AList.update k (scheduledEntry_v4 e dk sk room) sch)"
  with set_update_subset [of k "scheduledEntry_v4 e dk sk room" sch]
  have "s = scheduledEntry_v4 e dk sk room \<or> (k', s) \<in> set sch" by auto
  then show "\<exists>e \<in> E. s = scheduledEntry_v4 e (DAY s) (SLOT s) (ROOM s)"
  proof
    assume s: "s = scheduledEntry_v4 e dk sk room"
    have "s = scheduledEntry_v4 e (DAY s) (SLOT s) (ROOM s)"
      unfolding s by simp
    with assms(2) show ?thesis by blast
  next
    assume "(k', s) \<in> set sch"
    with assms(1) show ?thesis by (auto simp: entriesFrom_v4_def)
  qed
qed

lemma reach_v4_entriesFrom:
  "reach_v4 E c c' \<Longrightarrow> entriesFrom_v4 E (snd c) \<Longrightarrow> entriesFrom_v4 E (snd c')"
proof (induction rule: reach_v4.induct)
  case reach_v4_refl
  then show ?case .
next
  case (reach_v4_step st scheduled e day slot room)
  then have "entriesFrom_v4 E scheduled" by simp
  with reach_v4_step.hyps(2) show ?case by (simp add: snd_scheduleExam_v4 entriesFrom_v4_update)
qed

lemma v4_output_keys:
  "distinct (map (\<lambda>s. (CODE s, SLOT s)) (generateExamSchedule_v4 exams rooms numDays))"
proof -
  obtain n un st sch where r: "runPhases_v4 exams rooms numDays = (n, un, st, sch)"
    by (cases "runPhases_v4 exams rooms numDays")
  have "keysOK (snd (st, sch))"
    by (rule reach_v4_keysOK [OF runPhases_v4_reach [OF r]]) (simp add: keysOK_def)
  then have "keysOK sch" by simp
  then have "distinct (map (\<lambda>s. (CODE s, SLOT s)) (map snd sch))"
    by (rule keysOK_distinct_pairs)
  then show ?thesis by (simp add: generateExamSchedule_v4_def r)
qed

lemma v4_output_entries:
  assumes "s \<in> set (generateExamSchedule_v4 exams rooms numDays)"
  shows "\<exists>e \<in> set exams. toUpperCase (dept e) \<noteq> ''SAS'' \<and>
     s = scheduledEntry_v4 e (DAY s) (SLOT s) (ROOM s)"
proof -
  obtain n un st sch where r: "runPhases_v4 exams rooms numDays = (n, un, st, sch)"
    by (cases "runPhases_v4 exams rooms numDays")
  have ef: "entriesFrom_v4 (set (eligibleExams exams)) (snd (st, sch))"
    by (rule reach_v4_entriesFrom [OF runPhases_v4_reach [OF r]]) (simp add: entriesFrom_v4_def)
  from assms obtain k where "(k, s) \<in> set sch" by (auto simp: generateExamSchedule_v4_def r)
  with ef obtain e where e: "e \<in> set (eligibleExams exams)"
    "s = scheduledEntry_v4 e (DAY s) (SLOT s) (ROOM s)"
    by (auto simp: entriesFrom_v4_def)
  from e(1) have "e \<in> set exams" "toUpperCase (dept e) \<noteq> ''SAS''"
    by (simp_all add: eligibleExams_def)
  with e(2) show ?thesis by blast
qed

section \<open>Every run is a run of checked placements\<close>

lemma hasConflict_after:
  assumes "\<not> hasConflict x day slot st m"
    "\<forall>k. courseYearKey x = Some k \<longrightarrow> \<not> conflictEdge m k (normSubject x) A"
    "subjectScheduled st' = (subjectScheduled st)(A \<mapsto> v)"
  shows "\<not> hasConflict x day slot st' m"
  using assms unfolding hasConflict_iff by (auto split: if_splits)

lemma uniform_no_edge:
  assumes "uniformGroup g" "irreflexiveMatrix m" "x \<in> set g" "e \<in> set g"
  shows "\<forall>k. courseYearKey x = Some k \<longrightarrow> \<not> conflictEdge m k (normSubject x) (normSubject e)"
proof -
  from assms(1,3,4) have "normSubject x = normSubject e"
    unfolding uniformGroup_def by blast
  moreover from assms(2) have "\<And>k. \<not> conflictEdge m k (normSubject e) (normSubject e)"
    unfolding irreflexiveMatrix_def by blast
  ultimately show ?thesis by simp
qed

lemma commitGroup_placements:
  assumes "uniformGroup (before @ g)" "irreflexiveMatrix m"
    "\<forall>e \<in> set g. \<not> hasConflict e day slot st m"
    "placements m c (st, sch)"
    "commitGroup g i day slot av st sch = (ok, st', sch')"
  shows "placements m c (st', sch')"
  using assms
proof (induction g arbitrary: i st sch before)
  case Nil
  then show ?case by simp
next
  case (Cons e g)
  from Cons.prems(3) have nc: "\<not> hasConflict e day slot st m" by simp
  have u': "uniformGroup ((before @ [e]) @ g)" using Cons.prems(1) by simp
  have keep: "\<And>st1. subjectScheduled st1 =
        (subjectScheduled st)(normSubject e \<mapsto> (dayLabel day, slotLabel slot)) \<Longrightarrow>
      \<forall>x \<in> set g. \<not> hasConflict x day slot st1 m"
  proof
    fix st1 :: scheduling_state and x
    assume s1: "subjectScheduled st1 =
        (subjectScheduled st)(normSubject e \<mapsto> (dayLabel day, slotLabel slot))"
      and x: "x \<in> set g"
    from x Cons.prems(3) have ncx: "\<not> hasConflict x day slot st m" by simp
    have "x \<in> set (before @ e # g)" "e \<in> set (before @ e # g)" using x by simp_all
    from uniform_no_edge [OF Cons.prems(1,2) this]
    have "\<forall>k. courseYearKey x = Some k \<longrightarrow> \<not> conflictEdge m k (normSubject x) (normSubject e)" .
    from hasConflict_after [OF ncx this s1] show "\<not> hasConflict x day slot st1 m" .
  qed
  show ?case
  proof (cases "is6UnitSubject e")
    case True
    show ?thesis
    proof (cases "schedule6UnitExam e day slot (av ! i) st sch")
      case None
      with True Cons.prems(5) have "(st', sch') = (st, sch)" by simp
      with Cons.prems(4) show ?thesis by simp
    next
      case (Some p)
      obtain st1 sch1 where p: "p = (st1, sch1)" by (cases p)
      have r1: "placements m c (st1, sch1)"
        using placements_double [OF Cons.prems(4) True nc Some] p by simp
      from schedule6UnitExam_subject [OF Some [unfolded p]]
      have nc1: "\<forall>x \<in> set g. \<not> hasConflict x day slot st1 m" by (rule keep)
      from True Some p Cons.prems(5)
      have "commitGroup g (Suc i) day slot av st1 sch1 = (ok, st', sch')" by simp
      from Cons.IH [OF u' Cons.prems(2) nc1 r1 this] show ?thesis .
    qed
  next
    case False
    obtain st1 sch1 where a: "scheduleExam e day slot (av ! i) st sch False = (st1, sch1)"
      by (cases "scheduleExam e day slot (av ! i) st sch False")
    have r1: "placements m c (st1, sch1)"
      using placements_single [OF Cons.prems(4) False nc, of "av ! i"] a by simp
    have "subjectScheduled st1 =
        (subjectScheduled st)(normSubject e \<mapsto> (dayLabel day, slotLabel slot))"
      using subjectScheduled_scheduleExam [of e day slot "av ! i" st sch False] a by simp
    then have nc1: "\<forall>x \<in> set g. \<not> hasConflict x day slot st1 m" by (rule keep)
    from False a Cons.prems(5)
    have "commitGroup g (Suc i) day slot av st1 sch1 = (ok, st', sch')" by simp
    from Cons.IH [OF u' Cons.prems(2) nc1 r1 this] show ?thesis .
  qed
qed

lemma tryScheduleGroup_placements:
  assumes "uniformGroup g" "irreflexiveMatrix m" "placements m c (st, sch)"
    "tryScheduleGroup g day slot rooms st m sch = (ok, st', sch')"
  shows "placements m c (st', sch')"
proof (cases g)
  case Nil
  with assms show ?thesis by simp
next
  case (Cons e0 es)
  let ?av = "getAvailableRooms e0 day slot rooms st (list_ex is6UnitSubject g)"
  show ?thesis
  proof (cases "list_ex (\<lambda>e. hasConflict e day slot st m) g \<or> length ?av < length g")
    case True
    with assms(4) Cons have "(st', sch') = (st, sch)" by (auto simp: Let_def split: if_splits)
    with assms(3) show ?thesis by simp
  next
    case False
    with assms(4) Cons have cg: "commitGroup g 0 day slot ?av st sch = (ok, st', sch')"
      by (auto simp: Let_def split: if_splits)
    from False have nc: "\<forall>e \<in> set g. \<not> hasConflict e day slot st m"
      by (auto simp: list_ex_iff)
    from assms(1) have u: "uniformGroup ([] @ g)" by simp
    from commitGroup_placements [OF u assms(2) nc assms(3) cg] show ?thesis .
  qed
qed

lemma scanGrid_placements:
  assumes "uniformGroup g" "irreflexiveMatrix m" "placements m c (st, sch)"
    "scanGrid g cells rooms m st sch = (ok, st', sch')"
  shows "placements m c (st', sch')"
  using assms(3,4)
proof (induction cells arbitrary: st sch)
  case Nil
  then show ?case by simp
next
  case (Cons cell cells)
  obtain day slot where cell: "cell = (day, slot)" by (cases cell)
  obtain ok1 st1 sch1 where t: "tryScheduleGroup g day slot rooms st m sch = (ok1, st1, sch1)"
    by (cases "tryScheduleGroup g day slot rooms st m sch")
  have r1: "placements m c (st1, sch1)"
    by (rule tryScheduleGroup_placements [OF assms(1,2) Cons.prems(1) t])
  show ?case
  proof (cases ok1)
    case True
    with Cons.prems(2) cell t have "(st', sch') = (st1, sch1)" by simp
    with r1 show ?thesis by simp
  next
    case False
    with Cons.prems(2) cell t have "scanGrid g cells rooms m st1 sch1 = (ok, st', sch')" by simp
    from Cons.IH [OF r1 this] show ?thesis .
  qed
qed

lemma scanBlocks_placements:
  assumes "uniformGroup g" "irreflexiveMatrix m" "placements m c (st, sch)"
    "scanBlocks g blocks numDays rooms m st sch = (ok, st', sch')"
  shows "placements m c (st', sch')"
  using assms(3,4)
proof (induction blocks arbitrary: st sch)
  case Nil
  then show ?case by simp
next
  case (Cons b blocks)
  show ?case
  proof (cases "block_day b < numDays")
    case inGrid: True
    obtain ok1 st1 sch1 where t:
      "tryScheduleGroup g (block_day b) (block_slot b) rooms st m sch = (ok1, st1, sch1)"
      by (cases "tryScheduleGroup g (block_day b) (block_slot b) rooms st m sch")
    have r1: "placements m c (st1, sch1)"
      by (rule tryScheduleGroup_placements [OF assms(1,2) Cons.prems(1) t])
    show ?thesis
    proof (cases ok1)
      case True
      with Cons.prems(2) inGrid t have "(st', sch') = (st1, sch1)" by simp
      with r1 show ?thesis by simp
    next
      case False
      with Cons.prems(2) inGrid t
      have "scanBlocks g blocks numDays rooms m st1 sch1 = (ok, st', sch')" by simp
      from Cons.IH [OF r1 this] show ?thesis .
    qed
  next
    case False
    with Cons.prems(2) have "scanBlocks g blocks numDays rooms m st sch = (ok, st', sch')" by simp
    from Cons.IH [OF Cons.prems(1) this] show ?thesis .
  qed
qed

lemma scanIndividual_placements:
  assumes "placements m c (st, sch)"
    "scanIndividual e cells rooms m st sch = (ok, st', sch')"
  shows "placements m c (st', sch')"
  using assms(2)
proof (induction cells)
  case Nil
  with assms(1) show ?case by simp
next
  case (Cons cell cells)
  obtain day slot where cell: "cell = (day, slot)" by (cases cell)
  consider (skip) "scanIndividual e cells rooms m st sch = (ok, st', sch')"
    | (six) room where "\<not> hasConflict e day slot st m" "is6UnitSubject e"
        "schedule6UnitExam e day slot room st sch = Some (st', sch')"
    | (one) room where "\<not> hasConflict e day slot st m" "\<not> is6UnitSubject e"
        "scheduleExam e day slot room st sch False = (st', sch')"
    using Cons.prems cell
    by (auto split: if_splits list.splits option.splits prod.splits)
  then show ?case
  proof cases
    case skip
    then show ?thesis by (rule Cons.IH)
  next
    case six
    from placements_double [OF assms(1) six(2,1,3)] show ?thesis .
  next
    case one
    from placements_single [OF assms(1) one(2,1), of room] one(3) show ?thesis by simp
  qed
qed

section \<open>Groups of one subject\<close>

lemma pushGroup_keyed:
  assumes "\<forall>p \<in> set gs. \<forall>x \<in> set (snd p). f x = Some (fst p)" "f e = Some k"
  shows "\<forall>p \<in> set (pushGroup k e gs). \<forall>x \<in> set (snd p). f x = Some (fst p)"
  using assms by (induction k e gs rule: pushGroup.induct) auto

lemma fold_groupStep_keyed:
  assumes "\<forall>p \<in> set gs. \<forall>x \<in> set (snd p). f x = Some (fst p)"
  shows "\<forall>p \<in> set (fold (groupStep f) xs gs). \<forall>x \<in> set (snd p). f x = Some (fst p)"
  using assms
proof (induction xs arbitrary: gs)
  case Nil
  then show ?case by simp
next
  case (Cons a xs)
  have "\<forall>p \<in> set (groupStep f a gs). \<forall>x \<in> set (snd p). f x = Some (fst p)"
  proof (cases "f a")
    case None
    with Cons.prems show ?thesis by (simp add: groupStep_def)
  next
    case (Some k)
    from pushGroup_keyed [OF Cons.prems Some] Some show ?thesis by (simp add: groupStep_def)
  qed
  from Cons.IH [OF this] show ?case by simp
qed

lemma subject_groups_uniform:
  assumes "p \<in> set (groupExamsBySubject xs)"
  shows "uniformGroup (snd p)"
proof -
  have "\<forall>p \<in> set (fold (groupStep (\<lambda>e. Some (normSubject e))) xs []).
      \<forall>x \<in> set (snd p). Some (normSubject x) = Some (fst p)"
    by (rule fold_groupStep_keyed) simp
  with assms show ?thesis
    by (auto simp: groupExamsBySubject_def uniformGroup_def)
qed

lemma buildConflictMatrix_irreflexive: "irreflexiveMatrix (buildConflictMatrix xs)"
  by (simp add: irreflexiveMatrix_def conflictEdge_build)

section \<open>The phases\<close>

lemma gridStep_placements:
  assumes "uniformGroup (snd p)" "irreflexiveMatrix m" "placements m c (snd (snd acc))"
  shows "placements m c (snd (snd (gridStep numDays rooms m p acc)))"
proof -
  obtain sid g where p: "p = (sid, g)" by (cases p)
  obtain cnt failed st sch where acc: "acc = (cnt, failed, st, sch)" by (cases acc)
  obtain ok st1 sch1 where s: "scanGrid g (gridCells numDays) rooms m st sch = (ok, st1, sch1)"
    by (cases "scanGrid g (gridCells numDays) rooms m st sch")
  from assms p acc have u: "uniformGroup g" and r: "placements m c (st, sch)" by simp_all
  have "placements m c (st1, sch1)" by (rule scanGrid_placements [OF u assms(2) r s])
  then show ?thesis
    by (cases ok) (simp_all add: gridStep_def p acc s record_outcome_def)
qed

lemma blockStep_placements:
  assumes "uniformGroup (snd p)" "irreflexiveMatrix m" "placements m c (snd (snd acc))"
  shows "placements m c (snd (snd (blockStep blocks numDays rooms m p acc)))"
proof -
  obtain sid g where p: "p = (sid, g)" by (cases p)
  obtain cnt failed st sch where acc: "acc = (cnt, failed, st, sch)" by (cases acc)
  obtain ok st1 sch1 where s: "scanBlocks g blocks numDays rooms m st sch = (ok, st1, sch1)"
    by (cases "scanBlocks g blocks numDays rooms m st sch")
  from assms p acc have u: "uniformGroup g" and r: "placements m c (st, sch)" by simp_all
  have "placements m c (st1, sch1)" by (rule scanBlocks_placements [OF u assms(2) r s])
  then show ?thesis
    by (cases ok) (simp_all add: blockStep_def p acc s record_outcome_def)
qed

lemma fold_gridStep_placements:
  assumes "\<And>p. p \<in> set groups \<Longrightarrow> uniformGroup (snd p)" "irreflexiveMatrix m"
    "placements m c (snd (snd acc))"
  shows "placements m c (snd (snd (fold (gridStep numDays rooms m) groups acc)))"
proof (rule fold_invariant [where Q = "\<lambda>p. uniformGroup (snd p)"])
  show "\<And>x. x \<in> set groups \<Longrightarrow> uniformGroup (snd x)" by (rule assms(1))
  show "placements m c (snd (snd acc))" by (rule assms(3))
  show "\<And>x s. uniformGroup (snd x) \<Longrightarrow> placements m c (snd (snd s)) \<Longrightarrow>
      placements m c (snd (snd (gridStep numDays rooms m x s)))"
    using assms(2) by (rule gridStep_placements [rotated])
qed

lemma fold_blockStep_placements:
  assumes "\<And>p. p \<in> set groups \<Longrightarrow> uniformGroup (snd p)" "irreflexiveMatrix m"
    "placements m c (snd (snd acc))"
  shows "placements m c (snd (snd (fold (blockStep blocks numDays rooms m) groups acc)))"
proof (rule fold_invariant [where Q = "\<lambda>p. uniformGroup (snd p)"])
  show "\<And>x. x \<in> set groups \<Longrightarrow> uniformGroup (snd x)" by (rule assms(1))
  show "placements m c (snd (snd acc))" by (rule assms(3))
  show "\<And>x s. uniformGroup (snd x) \<Longrightarrow> placements m c (snd (snd s)) \<Longrightarrow>
      placements m c (snd (snd (blockStep blocks numDays rooms m x s)))"
    using assms(2) by (rule blockStep_placements [rotated])
qed

lemma genEdStep_placements:
  assumes "irreflexiveMatrix m" "placements m c (snd (snd acc))"
  shows "placements m c (snd (snd (genEdStep numDays rooms m p acc)))"
proof -
  obtain ty xs where p: "p = (ty, xs)" by (cases p)
  have u: "\<And>q. q \<in> set (groupExamsBySubject xs) \<Longrightarrow> uniformGroup (snd q)"
    by (rule subject_groups_uniform)
  show ?thesis
    unfolding genEdStep_def p
    by (simp add: Let_def fold_gridStep_placements [OF u assms]
        fold_blockStep_placements [OF u assms])
qed

lemma scheduleGenEdTimeBlocks_placements:
  assumes "irreflexiveMatrix m" "placements m c (st, sch)"
  shows "placements m c (snd (snd (scheduleGenEdTimeBlocks exams rooms st m sch numDays)))"
  unfolding scheduleGenEdTimeBlocks_def Let_def
proof (rule fold_invariant [where Q = "\<lambda>p. True"])
  show "placements m c (snd (snd (0 :: nat, [] :: exam list, st, sch)))" using assms(2) by simp
  show "\<And>x s. True \<Longrightarrow> placements m c (snd (snd s)) \<Longrightarrow>
      placements m c (snd (snd (genEdStep numDays rooms m x s)))"
    using assms(1) by (rule genEdStep_placements)
qed simp

lemma scheduleHighPriority_placements:
  assumes "irreflexiveMatrix m" "placements m c (st, sch)"
  shows "placements m c (snd (snd (scheduleHighPriority exams rooms st m sch numDays)))"
proof -
  have u: "\<And>xs q. q \<in> set (groupExamsBySubject xs) \<Longrightarrow> uniformGroup (snd q)"
    by (rule subject_groups_uniform)
  have s: "placements m c (snd (snd (0 :: nat, [] :: exam list, st, sch)))" using assms(2) by simp
  show ?thesis
    unfolding scheduleHighPriority_def Let_def
    by (rule fold_gridStep_placements [OF u assms(1) fold_gridStep_placements [OF u assms(1) s]])
qed

lemma scheduleMajorSubjects_placements:
  assumes "irreflexiveMatrix m" "placements m c (st, sch)"
  shows "placements m c (snd (snd (scheduleMajorSubjects exams rooms st m sch numDays)))"
proof -
  have u: "\<And>q. q \<in> set (sort_key (\<lambda>(sid, g). length g) (groupExamsBySubject exams))
      \<Longrightarrow> uniformGroup (snd q)"
    using subject_groups_uniform [of _ exams] by simp
  have s: "placements m c (snd (snd (0 :: nat, [] :: exam list, st, sch)))" using assms(2) by simp
  show ?thesis
    unfolding scheduleMajorSubjects_def Let_def
    by (rule fold_gridStep_placements [OF u assms(1) s])
qed

lemma individualStep_placements:
  assumes "placements m c (snd acc)"
  shows "placements m c (snd (individualStep numDays rooms m e acc))"
proof -
  obtain cnt st sch where acc: "acc = (cnt, st, sch)" by (cases acc)
  obtain ok st1 sch1 where s: "scanIndividual e (gridCells numDays) rooms m st sch = (ok, st1, sch1)"
    by (cases "scanIndividual e (gridCells numDays) rooms m st sch")
  from assms acc have r: "placements m c (st, sch)" by simp
  have "placements m c (st1, sch1)" by (rule scanIndividual_placements [OF r s])
  then show ?thesis by (cases ok) (simp_all add: individualStep_def acc s)
qed

lemma scheduleIndividually_placements:
  assumes "placements m c (st, sch)"
  shows "placements m c (snd (scheduleIndividually exams rooms st m sch numDays))"
  unfolding scheduleIndividually_def
proof (rule fold_invariant [where Q = "\<lambda>e. True"])
  show "placements m c (snd (0 :: nat, st, sch))" using assms by simp
  show "\<And>x s. True \<Longrightarrow> placements m c (snd s) \<Longrightarrow>
      placements m c (snd (individualStep numDays rooms m x s))"
    by (rule individualStep_placements)
qed simp

lemma runPhases_placements:
  assumes "runPhases exams rooms numDays = (n, st, sch)"
  shows "placements (buildConflictMatrix (eligibleExams exams)) (initialState, []) (st, sch)"
proof -
  let ?c = "(initialState, [] :: scheduled_map)"
  let ?m = "buildConflictMatrix (eligibleExams exams)"
  let ?genEds = "filter (\<lambda>e. isGenEdSubject (subjectId e)) (eligibleExams exams)"
  let ?math = "filter isMathSubject (eligibleExams exams)"
  let ?arch = "filter (\<lambda>e. isArchSubject (subjectId e)) (eligibleExams exams)"
  let ?major = "filter (\<lambda>e. \<not> isGenEdSubject (subjectId e) \<and> \<not> isMathSubject e
                                        \<and> \<not> isArchSubject (subjectId e)) (eligibleExams exams)"
  have irr: "irreflexiveMatrix ?m" by (rule buildConflictMatrix_irreflexive)
  obtain c1 f1 st1 sch1 where p1:
    "scheduleGenEdTimeBlocks ?genEds rooms initialState ?m [] numDays = (c1, f1, st1, sch1)"
    by (cases "scheduleGenEdTimeBlocks ?genEds rooms initialState ?m [] numDays")
  obtain c2 f2 st2 sch2 where p2:
    "scheduleHighPriority (?math @ ?arch) rooms st1 ?m sch1 numDays = (c2, f2, st2, sch2)"
    by (cases "scheduleHighPriority (?math @ ?arch) rooms st1 ?m sch1 numDays")
  obtain c3 f3 st3 sch3 where p3:
    "scheduleMajorSubjects ?major rooms st2 ?m sch2 numDays = (c3, f3, st3, sch3)"
    by (cases "scheduleMajorSubjects ?major rooms st2 ?m sch2 numDays")
  obtain c4 st4 sch4 where p4:
    "scheduleIndividually (f1 @ f2 @ f3) rooms st3 ?m sch3 numDays = (c4, st4, sch4)"
    by (cases "scheduleIndividually (f1 @ f2 @ f3) rooms st3 ?m sch3 numDays")
  have r0: "placements ?m ?c (initialState, [])" by (rule placements_none)
  have r1: "placements ?m ?c (st1, sch1)"
    using scheduleGenEdTimeBlocks_placements [OF irr r0, of ?genEds rooms numDays] p1 by simp
  have r2: "placements ?m ?c (st2, sch2)"
    using scheduleHighPriority_placements [OF irr r1, of "?math @ ?arch" rooms numDays] p2 by simp
  have r3: "placements ?m ?c (st3, sch3)"
    using scheduleMajorSubjects_placements [OF irr r2, of ?major rooms numDays] p3 by simp
  have r4: "placements ?m ?c (st4, sch4)"
    using scheduleIndividually_placements [OF r3, of "f1 @ f2 @ f3" rooms numDays] p4 by simp
  moreover have "(st, sch) = (st4, sch4)"
    using assms by (simp add: runPhases_def Let_def p1 p2 p3 p4)
  ultimately show ?thesis by simp
qed

section \<open>One entry per section code and slot label\<close>

text \<open>
  Claim C10. The output of \<open>generateExamSchedule\<close> holds at most one entry for every
  pair of section code and slot label, because \<open>scheduleExam\<close> stores each entry under
  the key made of the two. When a section is placed a second time under the same slot
  label, on whatever day and in whatever room and after whatever other placements, the
  accumulator keeps its keys and their order, the entry under the key is the later
  placement, and the room of the earlier placement is still recorded in the ledger.
  The two-phase variant stores its entries under the same keys, so its output has at most
  one entry for every pair of section code and slot label too.
\<close>

theorem one_entry_per_code_and_slot:
  "distinct (map (\<lambda>s. (CODE s, SLOT s)) (generateExamSchedule exams rooms numDays))
   \<and> (scheduleExam e day1 slot room1 st0 sch0 b1 = (st1, sch1) \<longrightarrow>
      reach E rs (st1, sch1) (st2, sch2) \<longrightarrow>
      scheduleExam e day2 slot room2 st2 sch2 b2 = (st3, sch3) \<longrightarrow>
        map fst sch3 = map fst sch2
        \<and> map_of sch3 (scheduledKey (code e) (slotLabel slot))
            = Some (scheduledEntry e (dayLabel day2) (slotLabel slot) room2)
        \<and> room1 \<in> occupiedAt st3 (dayLabel day1) (slotLabel slot))
   \<and> distinct (map (\<lambda>s. (CODE s, SLOT s)) (generateExamSchedule_v4 exams rooms numDays))"
proof (intro conjI)
  show "distinct (map (\<lambda>s. (CODE s, SLOT s)) (generateExamSchedule_v4 exams rooms numDays))"
    by (rule v4_output_keys)
next
  obtain n st sch where r: "runPhases exams rooms numDays = (n, st, sch)"
    by (cases "runPhases exams rooms numDays")
  have "keysOK (snd (st, sch))"
    by (rule reach_keysOK [OF runPhases_reach [OF r]]) (simp add: start_ok)
  then have "keysOK sch" by simp
  then have "distinct (map (\<lambda>s. (CODE s, SLOT s)) (map snd sch))"
    by (rule keysOK_distinct_pairs)
  then show "distinct (map (\<lambda>s. (CODE s, SLOT s)) (generateExamSchedule exams rooms numDays))"
    by (simp add: generateExamSchedule_def r)
next
  show "scheduleExam e day1 slot room1 st0 sch0 b1 = (st1, sch1) \<longrightarrow>
      reach E rs (st1, sch1) (st2, sch2) \<longrightarrow>
      scheduleExam e day2 slot room2 st2 sch2 b2 = (st3, sch3) \<longrightarrow>
        map fst sch3 = map fst sch2
        \<and> map_of sch3 (scheduledKey (code e) (slotLabel slot))
            = Some (scheduledEntry e (dayLabel day2) (slotLabel slot) room2)
        \<and> room1 \<in> occupiedAt st3 (dayLabel day1) (slotLabel slot)"
  proof (intro impI)
    let ?k = "scheduledKey (code e) (slotLabel slot)"
    assume a: "scheduleExam e day1 slot room1 st0 sch0 b1 = (st1, sch1)"
      and re: "reach E rs (st1, sch1) (st2, sch2)"
      and b: "scheduleExam e day2 slot room2 st2 sch2 b2 = (st3, sch3)"
    from a have sch1: "sch1 = AList.update ?k (scheduledEntry e (dayLabel day1) (slotLabel slot) room1) sch0"
      and st1: "st1 = fst (scheduleExam e day1 slot room1 st0 sch0 b1)"
      using snd_scheduleExam [of e day1 slot room1 st0 sch0 b1] by simp_all
    from b have sch3: "sch3 = AList.update ?k (scheduledEntry e (dayLabel day2) (slotLabel slot) room2) sch2"
      and st3: "st3 = fst (scheduleExam e day2 slot room2 st2 sch2 b2)"
      using snd_scheduleExam [of e day2 slot room2 st2 sch2 b2] by simp_all
    have "?k \<in> fst ` set sch1" by (simp add: sch1 dom_update)
    with reach_keys_mono [OF re] have k2: "?k \<in> fst ` set sch2" by auto
    have "room1 \<in> occupiedAt st1 (dayLabel day1) (slotLabel slot)"
      by (simp add: st1 occupiedAt_scheduleExam)
    with reach_occupied_mono [OF re, of "dayLabel day1" "slotLabel slot"]
    have "room1 \<in> occupiedAt st2 (dayLabel day1) (slotLabel slot)" by auto
    then have r3: "room1 \<in> occupiedAt st3 (dayLabel day1) (slotLabel slot)"
      by (auto simp: st3 occupiedAt_scheduleExam)
    have "map fst sch3 = map fst sch2" unfolding sch3 by (rule update_present [OF k2])
    moreover have "map_of sch3 ?k = Some (scheduledEntry e (dayLabel day2) (slotLabel slot) room2)"
      by (simp add: sch3 update_conv')
    ultimately show "map fst sch3 = map fst sch2
        \<and> map_of sch3 ?k = Some (scheduledEntry e (dayLabel day2) (slotLabel slot) room2)
        \<and> room1 \<in> occupiedAt st3 (dayLabel day1) (slotLabel slot)"
      using r3 by simp
  qed
qed

theorem one_entry_per_code_and_slot_witness:
  "distinct (map (\<lambda>s. (CODE s, SLOT s))
      (generateExamSchedule [exDouble, exSingle] [''N-1'', ''N-2''] 1))
   \<and> map fst (snd (scheduleExam exLecture 1 7 ''N-2''
          (fst (scheduleExam exLecture 0 7 ''N-1'' initialState [] False))
          (snd (scheduleExam exLecture 0 7 ''N-1'' initialState [] False)) False))
      = map fst (snd (scheduleExam exLecture 0 7 ''N-1'' initialState [] False))
   \<and> ''N-1'' \<in> occupiedAt (fst (scheduleExam exLecture 1 7 ''N-2''
          (fst (scheduleExam exLecture 0 7 ''N-1'' initialState [] False))
          (snd (scheduleExam exLecture 0 7 ''N-1'' initialState [] False)) False))
        (dayLabel 0) (slotLabel 7)"
proof -
  let ?a = "scheduleExam exLecture 0 7 ''N-1'' initialState [] False"
  let ?b = "scheduleExam exLecture 1 7 ''N-2'' (fst ?a) (snd ?a) False"
  have a: "?a = (fst ?a, snd ?a)" by simp
  have b: "?b = (fst ?b, snd ?b)" by simp
  have r: "reach {exLecture} [''N-1'', ''N-2''] (fst ?a, snd ?a) (fst ?a, snd ?a)"
    by (rule reach_refl)
  note inst = one_entry_per_code_and_slot
    [where exams = "[exDouble, exSingle]" and rooms = "[''N-1'', ''N-2'']" and numDays = 1
       and e = exLecture and ?day1.0 = 0 and slot = 7 and ?room1.0 = "''N-1''"
       and ?st0.0 = initialState and ?sch0.0 = "[]" and ?b1.0 = False
       and ?st1.0 = "fst ?a" and ?sch1.0 = "snd ?a"
       and E = "{exLecture}" and rs = "[''N-1'', ''N-2'']"
       and ?st2.0 = "fst ?a" and ?sch2.0 = "snd ?a"
       and ?day2.0 = 1 and ?room2.0 = "''N-2''" and ?b2.0 = False
       and ?st3.0 = "fst ?b" and ?sch3.0 = "snd ?b"]
  from inst a r b show ?thesis by blast
qed

section \<open>Sections of the excluded department\<close>

text \<open>
  Claim C9. Every entry in the output of \<open>generateExamSchedule\<close> was built from a
  section of the input whose upper-cased department is not SAS, so no section of that
  department appears in the output; the output is the one computed from the input without
  those sections; and every edge of the conflict matrix used by the run comes from two
  sections whose department is not SAS. The two-phase variant filters its input and
  builds its matrix in the same way, and its output has no entry of that department
  either.
\<close>

theorem no_excluded_department:
  "(\<forall>s \<in> set (generateExamSchedule exams rooms numDays).
      toUpperCase (DEPT s) \<noteq> ''SAS'' \<and>
      (\<exists>e \<in> set exams. toUpperCase (dept e) \<noteq> ''SAS'' \<and>
         s = scheduledEntry e (DAY s) (SLOT s) (ROOM s)))
   \<and> generateExamSchedule exams rooms numDays
       = generateExamSchedule (eligibleExams exams) rooms numDays
   \<and> (conflictEdge (buildConflictMatrix (eligibleExams exams)) k A B \<longrightarrow>
        (\<exists>e1 \<in> set exams. \<exists>e2 \<in> set exams.
           toUpperCase (dept e1) \<noteq> ''SAS'' \<and> toUpperCase (dept e2) \<noteq> ''SAS'' \<and>
           courseYearKey e1 = Some k \<and> courseYearKey e2 = Some k \<and>
           normSubject e1 = A \<and> normSubject e2 = B \<and> code e1 \<noteq> code e2))
   \<and> (\<forall>s \<in> set (generateExamSchedule_v4 exams rooms numDays).
        toUpperCase (DEPT s) \<noteq> ''SAS'')"
proof (intro conjI)
  show "\<forall>s \<in> set (generateExamSchedule_v4 exams rooms numDays).
        toUpperCase (DEPT s) \<noteq> ''SAS''"
  proof
    fix s assume "s \<in> set (generateExamSchedule_v4 exams rooms numDays)"
    from v4_output_entries [OF this] obtain e where e: "toUpperCase (dept e) \<noteq> ''SAS''"
      "s = scheduledEntry_v4 e (DAY s) (SLOT s) (ROOM s)" by blast
    from e(2) have "DEPT s = dept e" by (metis scheduledEntry_v4_sel(5))
    with e(1) show "toUpperCase (DEPT s) \<noteq> ''SAS''" by simp
  qed
next
  obtain n st sch where r: "runPhases exams rooms numDays = (n, st, sch)"
    by (cases "runPhases exams rooms numDays")
  have ef: "entriesFrom (set (eligibleExams exams)) (snd (st, sch))"
    by (rule reach_entriesFrom [OF runPhases_reach [OF r]]) (simp add: start_ok)
  show "\<forall>s \<in> set (generateExamSchedule exams rooms numDays).
      toUpperCase (DEPT s) \<noteq> ''SAS'' \<and>
      (\<exists>e \<in> set exams. toUpperCase (dept e) \<noteq> ''SAS'' \<and>
         s = scheduledEntry e (DAY s) (SLOT s) (ROOM s))"
  proof
    fix s assume "s \<in> set (generateExamSchedule exams rooms numDays)"
    then obtain k where "(k, s) \<in> set sch" by (auto simp: generateExamSchedule_def r)
    with ef obtain e where e: "e \<in> set (eligibleExams exams)"
      "s = scheduledEntry e (DAY s) (SLOT s) (ROOM s)"
      by (auto simp: entriesFrom_def)
    from e(1) have e': "e \<in> set exams" "toUpperCase (dept e) \<noteq> ''SAS''"
      by (simp_all add: eligibleExams_def)
    from e(2) have "DEPT s = dept e" by (metis scheduledEntry_sel(5))
    with e' e(2) show "toUpperCase (DEPT s) \<noteq> ''SAS'' \<and>
      (\<exists>e \<in> set exams. toUpperCase (dept e) \<noteq> ''SAS'' \<and>
         s = scheduledEntry e (DAY s) (SLOT s) (ROOM s))" by auto
  qed
  have "eligibleExams (eligibleExams exams) = eligibleExams exams"
    by (simp add: eligibleExams_def)
  then have "runPhases (eligibleExams exams) rooms numDays = runPhases exams rooms numDays"
    by (simp add: runPhases_def)
  then show "generateExamSchedule exams rooms numDays
       = generateExamSchedule (eligibleExams exams) rooms numDays"
    by (simp add: generateExamSchedule_def)
  show "conflictEdge (buildConflictMatrix (eligibleExams exams)) k A B \<longrightarrow>
        (\<exists>e1 \<in> set exams. \<exists>e2 \<in> set exams.
           toUpperCase (dept e1) \<noteq> ''SAS'' \<and> toUpperCase (dept e2) \<noteq> ''SAS'' \<and>
           courseYearKey e1 = Some k \<and> courseYearKey e2 = Some k \<and>
           normSubject e1 = A \<and> normSubject e2 = B \<and> code e1 \<noteq> code e2)"
    unfolding conflictEdge_build by (auto simp: eligibleExams_def)
qed

theorem no_excluded_department_witness:
  "map placementOf (generateExamSchedule [exExcluded, exCS101] [''N-1''] 1) =
     [(''S1'', ''Day 1'', Some ''7:30-9:00'', ''N-1'')]
   \<and> toUpperCase (DEPT (hd (generateExamSchedule [exExcluded, exCS101] [''N-1''] 1))) \<noteq> ''SAS''
   \<and> generateExamSchedule [exExcluded, exCS101] [''N-1''] 1
       = generateExamSchedule (eligibleExams [exExcluded, exCS101]) [''N-1''] 1"
proof -
  let ?out = "generateExamSchedule [exExcluded, exCS101] [''N-1''] 1"
  have 1: "map placementOf ?out = [(''S1'', ''Day 1'', Some ''7:30-9:00'', ''N-1'')]"
    by code_simp
  then have "?out \<noteq> []" by auto
  then have mem: "hd ?out \<in> set ?out" by simp
  note inst = no_excluded_department [of "[exExcluded, exCS101]" "[''N-1'']" 1]
  from inst mem have 2: "toUpperCase (DEPT (hd ?out)) \<noteq> ''SAS''" by blast
  from inst have 3: "?out = generateExamSchedule (eligibleExams [exExcluded, exCS101]) [''N-1''] 1"
    by blast
  from 1 2 3 show ?thesis by blast
qed

section \<open>No room is booked twice\<close>

text \<open>
  Claim C3, amended. When the room list has no repeated identifier, no two entries in the
  output of \<open>generateExamSchedule\<close> have the same day label, slot label and room.
\<close>

theorem no_double_booking:
  assumes "distinct rooms"
  shows "distinct (map bookingOf (generateExamSchedule exams rooms numDays))"
proof -
  obtain n st sch where r: "runPhases exams rooms numDays = (n, st, sch)"
    by (cases "runPhases exams rooms numDays")
  have "bookingsOK (st, sch)"
    by (rule reach_bookingsOK [OF runPhases_reach [OF r] assms]) (simp add: start_ok)
  then have "distinct (map (\<lambda>(k, s). bookingOf s) sch)" by (simp add: bookingsOK_def)
  moreover have "(\<lambda>(k, s). bookingOf s) = (bookingOf \<circ> snd :: string \<times> scheduled_exam \<Rightarrow> _)"
    by auto
  ultimately have "distinct (map bookingOf (map snd sch))"
    by simp
  then show ?thesis by (simp add: generateExamSchedule_def r)
qed

text \<open>
  The claim as stated, for every room list, fails when the list names a room twice: two
  sections of one subject are then placed in the same room at the same day and slot.
\<close>

theorem repeated_room_double_booked:
  "map placementOf (generateExamSchedule [exSectionA, exSectionB] [''N-1'', ''N-1''] 1) =
     [(''S30'', ''Day 1'', Some ''7:30-9:00'', ''N-1''),
      (''S31'', ''Day 1'', Some ''7:30-9:00'', ''N-1'')]
   \<and> \<not> distinct (map bookingOf (generateExamSchedule [exSectionA, exSectionB] [''N-1'', ''N-1''] 1))"
  by code_simp

theorem no_double_booking_witness:
  "distinct [''N-1'', ''N-2'']
   \<and> distinct (map bookingOf (generateExamSchedule [exSectionA, exSectionB] [''N-1'', ''N-2''] 1))"
proof -
  have d: "distinct [''N-1'', ''N-2'']" by simp
  from d no_double_booking [OF d] show ?thesis by (rule conjI)
qed

section \<open>The pinned block of the ethics category\<close>




section \<open>Conflicts are checked against the ledger\<close>

text \<open>
  Claim C2, amended. Conflict-freedom holds against the ledger at the time of each
  placement, not between all entries of the output. When \<open>tryScheduleGroup\<close> succeeds
  at a day and slot, every member's subject is recorded in the ledger at that day and
  slot, and no subject that the matrix marks as a conflict of a member, under the
  member's own course-year key, was recorded in the ledger at that day and slot before the
  call. When the individual scan of phase 4 places a section, it does so at a cell of the
  grid for which the same holds. The ledger records one placement per subject, the latest
  one, and only the first slot of a double-unit placement. For every input, the whole
  run of the four phases is a sequence of placements (\<open>placements\<close>), each made at
  a day and slot where \<open>hasConflict\<close> is false for the placed section in the ledger
  of that moment.
\<close>

theorem placement_checked_against_ledger:
  "(tryScheduleGroup g day slot rooms st m sch = (True, st', sch') \<longrightarrow>
      (\<forall>e \<in> set g.
         subjectScheduled st' (normSubject e) = Some (dayLabel day, slotLabel slot) \<and>
         (\<forall>k B. courseYearKey e = Some k \<longrightarrow> conflictEdge m k (normSubject e) B \<longrightarrow>
            subjectScheduled st B \<noteq> Some (dayLabel day, slotLabel slot))))
   \<and> (scanIndividual x cells rooms m st sch = (True, st'', sch'') \<longrightarrow>
      (\<exists>(d, s) \<in> set cells.
         subjectScheduled st'' (normSubject x) = Some (dayLabel d, slotLabel s) \<and>
         (\<forall>k B. courseYearKey x = Some k \<longrightarrow> conflictEdge m k (normSubject x) B \<longrightarrow>
            subjectScheduled st B \<noteq> Some (dayLabel d, slotLabel s))))
   \<and> (runPhases exams allRooms numDays = (n, stn, schn) \<longrightarrow>
      placements (buildConflictMatrix (eligibleExams exams)) (initialState, []) (stn, schn))"
proof (intro conjI impI)
  assume "runPhases exams allRooms numDays = (n, stn, schn)"
  then show "placements (buildConflictMatrix (eligibleExams exams)) (initialState, []) (stn, schn)"
    by (rule runPhases_placements)
next
  assume a: "tryScheduleGroup g day slot rooms st m sch = (True, st', sch')"
  show "\<forall>e \<in> set g.
         subjectScheduled st' (normSubject e) = Some (dayLabel day, slotLabel slot) \<and>
         (\<forall>k B. courseYearKey e = Some k \<longrightarrow> conflictEdge m k (normSubject e) B \<longrightarrow>
            subjectScheduled st B \<noteq> Some (dayLabel day, slotLabel slot))"
  proof
    fix e assume "e \<in> set g"
    from tryScheduleGroup_success [OF a this]
    show "subjectScheduled st' (normSubject e) = Some (dayLabel day, slotLabel slot) \<and>
         (\<forall>k B. courseYearKey e = Some k \<longrightarrow> conflictEdge m k (normSubject e) B \<longrightarrow>
            subjectScheduled st B \<noteq> Some (dayLabel day, slotLabel slot))"
      unfolding hasConflict_iff by blast
  qed
next
  assume "scanIndividual x cells rooms m st sch = (True, st'', sch'')"
  from scanIndividual_success [OF this]
  obtain d s where ds: "(d, s) \<in> set cells" "\<not> hasConflict x d s st m"
    "subjectScheduled st'' = (subjectScheduled st)(normSubject x \<mapsto> (dayLabel d, slotLabel s))"
    by auto
  from ds(2) have "\<forall>k B. courseYearKey x = Some k \<longrightarrow> conflictEdge m k (normSubject x) B \<longrightarrow>
            subjectScheduled st B \<noteq> Some (dayLabel d, slotLabel s)"
    unfolding hasConflict_iff by blast
  with ds(1,3) show "\<exists>(d, s) \<in> set cells.
         subjectScheduled st'' (normSubject x) = Some (dayLabel d, slotLabel s) \<and>
         (\<forall>k B. courseYearKey x = Some k \<longrightarrow> conflictEdge m k (normSubject x) B \<longrightarrow>
            subjectScheduled st B \<noteq> Some (dayLabel d, slotLabel s))"
    by (intro bexI [of _ "(d, s)"]) auto
qed

text \<open>
  The claim as stated fails: a double-unit subject placed in the first two slots and a
  conflicting subject placed in the second slot share Day 1, 9:00-10:30 in the output.
\<close>

theorem conflicting_subjects_share_slot:
  "conflictEdge (buildConflictMatrix (eligibleExams [exDouble, exSingle])) ''BSIT-1'' ''IT301'' ''IT302''
   \<and> conflictEdge (buildConflictMatrix (eligibleExams [exDouble, exSingle])) ''BSIT-1'' ''IT302'' ''IT301''
   \<and> map subjectSlotOf (generateExamSchedule [exDouble, exSingle] [''N-1'', ''N-2''] 1) =
       [(''IT301'', ''Day 1'', Some ''7:30-9:00''),
        (''IT301'', ''Day 1'', Some ''9:00-10:30''),
        (''IT302'', ''Day 1'', Some ''9:00-10:30'')]"
  by code_simp

theorem placement_checked_against_ledger_witness:
  "subjectScheduled
     (fst (snd (tryScheduleGroup [exSingle] 0 0 [''N-1'']
        \<lparr>roomUsage = Map.empty, subjectScheduled = [''IT301'' \<mapsto> (''Day 1'', Some ''9:00-10:30'')]\<rparr>
        (buildConflictMatrix [exDouble, exSingle]) [])))
     (normSubject exSingle) = Some (dayLabel 0, slotLabel 0)
   \<and> subjectScheduled
        \<lparr>roomUsage = Map.empty, subjectScheduled = [''IT301'' \<mapsto> (''Day 1'', Some ''9:00-10:30'')]\<rparr>
        ''IT301'' \<noteq> Some (dayLabel 0, slotLabel 0)
   \<and> subjectScheduled
        (fst (snd (scanIndividual exSingle [(0, 0)] [''N-1'']
           (buildConflictMatrix [exDouble, exSingle])
           \<lparr>roomUsage = Map.empty, subjectScheduled = [''IT301'' \<mapsto> (''Day 1'', Some ''9:00-10:30'')]\<rparr>
           [])))
        (normSubject exSingle) = Some (dayLabel 0, slotLabel 0)"
proof -
  let ?st = "\<lparr>roomUsage = Map.empty,
     subjectScheduled = [''IT301'' \<mapsto> (''Day 1'', Some ''9:00-10:30'')]\<rparr>"
  let ?m = "buildConflictMatrix [exDouble, exSingle]"
  let ?r = "tryScheduleGroup [exSingle] 0 0 [''N-1''] ?st ?m []"
  let ?i = "scanIndividual exSingle [(0, 0)] [''N-1''] ?m ?st []"
  have "fst ?r = True" by code_simp
  then have r: "?r = (True, fst (snd ?r), snd (snd ?r))" by (rule tryScheduleGroup_result)
  have "fst ?i = True" by code_simp
  then have i: "?i = (True, fst (snd ?i), snd (snd ?i))" by (rule scanIndividual_result)
  have key: "courseYearKey exSingle = Some ''BSIT-1''"
    by (simp add: exSingle_def key_mkExam)
  have edge: "conflictEdge ?m ''BSIT-1'' (normSubject exSingle) ''IT301''" by code_simp
  note inst = placement_checked_against_ledger
    [of "[exSingle]" 0 0 "[''N-1'']" ?st ?m "[]" "fst (snd ?r)" "snd (snd ?r)"
        exSingle "[(0, 0)]" "fst (snd ?i)" "snd (snd ?i)"]
  from inst r have g: "subjectScheduled (fst (snd ?r)) (normSubject exSingle)
        = Some (dayLabel 0, slotLabel 0) \<and>
      (\<forall>k B. courseYearKey exSingle = Some k \<longrightarrow> conflictEdge ?m k (normSubject exSingle) B \<longrightarrow>
         subjectScheduled ?st B \<noteq> Some (dayLabel 0, slotLabel 0))"
    by simp
  with key edge have 2: "subjectScheduled ?st ''IT301'' \<noteq> Some (dayLabel 0, slotLabel 0)"
    by blast
  from inst i have 3: "subjectScheduled (fst (snd ?i)) (normSubject exSingle)
        = Some (dayLabel 0, slotLabel 0)"
    by simp
  from g 2 3 show ?thesis by blast
qed

section \<open>Double-unit sections\<close>



section \<open>A failed group placement after a partial commit\<close>

text \<open>
  Claim C1 says that a call of \<open>tryScheduleGroup\<close> that returns false leaves the ledger
  and the output accumulator as they were. The commit loop returns false in its middle
  when it reaches a double-unit section at the last slot of the day, after it has
  scheduled the sections before it. For the group of a 3-unit section followed by a
  6-unit section, at day index 0 and slot index 7 with two free rooms and an empty
  ledger, the call returns false, and yet the output holds an entry of the first section,
  its room is recorded as occupied and its subject is recorded as placed. Every other
  failing call, at a slot before the last or for a group without a double-unit section,
  writes nothing (lemma \<open>tryScheduleGroup_failure_clean\<close>).
\<close>

theorem group_failure_keeps_partial_commit:
  "(case tryScheduleGroup [exLecture, exLab] 0 7 [''N-1'', ''N-2''] initialState Map.empty [] of
      (ok, st, scheduled) \<Rightarrow>
        (ok, map (placementOf \<circ> snd) scheduled,
         ''N-1'' \<in> occupiedAt st ''Day 1'' (Some ''6:00-7:30''),
         subjectScheduled st ''IT201''))
   = (False, [(''S10'', ''Day 1'', Some ''6:00-7:30'', ''N-1'')], True,
      Some (''Day 1'', Some ''6:00-7:30''))"
  by code_simp

end
